theory Spec2Isabelle
  imports Main "HOL-Library.Word" "HOL-Library.Multiset"
begin

unbundle bit_operations_syntax

section \<open>The open-addressing map of \<^verbatim>\<open>rpp/map.h\<close>\<close>

text \<open>
  A slot is a 64-bit tag and a storage cell for the key-value pair. The tag 0 is
  \<^verbatim>\<open>EMPTY_SLOT\<close>; every other tag is \<^verbatim>\<open>hash(key) | 1\<close>. The storage cell is
  \<open>None\<close> while nothing is constructed in it.

  The counters \<^verbatim>\<open>capacity_\<close>, \<^verbatim>\<open>length_\<close>, \<^verbatim>\<open>usable_\<close>, \<^verbatim>\<open>shift_\<close> and the loop
  variables are \<^verbatim>\<open>u64\<close> in the source. They count slots of one buffer, so they stay far
  below \<open>2 ^ 64\<close>, and they are natural numbers here; hashes are 64-bit words.
  The fields are named \<open>Map_data\<close>, \<open>Map_capacity\<close> and so on. The buffer \<^verbatim>\<open>data_\<close> is the list of its \<^verbatim>\<open>capacity_\<close> slots, the null pointer the
  empty list.
\<close>

type_synonym u64 = "64 word"

record ('k, 'v) slot =
  hash :: u64
  data :: "('k \<times> 'v) option"

record ('k, 'v) map_rec =
  Map_data :: "('k, 'v) slot list"
  Map_capacity :: nat
  Map_length :: nat
  Map_usable :: nat
  Map_shift :: nat

definition EMPTY_SLOT :: u64 where
  "EMPTY_SLOT = 0"

text \<open>\<^verbatim>\<open>Slot() = default\<close>: the empty tag, nothing constructed.\<close>

definition Slot_default :: "('k, 'v) slot" where
  "Slot_default = \<lparr>hash = EMPTY_SLOT, data = None\<rparr>"

text \<open>\<^verbatim>\<open>hash_(k) = hash(k) | 1\<close>; the element type's \<^verbatim>\<open>hash\<close> is the parameter \<open>hsh\<close>.\<close>

definition hash_key :: "('k \<Rightarrow> u64) \<Rightarrow> 'k \<Rightarrow> u64" where
  "hash_key hsh k = hsh k OR 1"

text \<open>\<^verbatim>\<open>Slot(K&& key, V&& value)\<close>.\<close>

definition Slot_make :: "('k \<Rightarrow> u64) \<Rightarrow> 'k \<Rightarrow> 'v \<Rightarrow> ('k, 'v) slot" where
  "Slot_make hsh key val = \<lparr>hash = hash_key hsh key, data = Some (key, val)\<rparr>"

text \<open>
  What a slot constructed or assigned from \<^verbatim>\<open>std::move(s)\<close> holds: the tag of \<open>s\<close>,
  and the pair of \<open>s\<close> only when the tag is not empty.
\<close>

definition Slot_move :: "('k, 'v) slot \<Rightarrow> ('k, 'v) slot" where
  "Slot_move s = \<lparr>hash = hash s, data = (if hash s \<noteq> EMPTY_SLOT then data s else None)\<rparr>"

text \<open>\<^verbatim>\<open>data->first\<close> of a slot, when a pair is constructed in it.\<close>

definition slot_key :: "('k, 'v) slot \<Rightarrow> 'k option" where
  "slot_key s = map_option fst (data s)"

definition slot_val :: "('k, 'v) slot \<Rightarrow> 'v option" where
  "slot_val s = map_option snd (data s)"

text \<open>
  \<^verbatim>\<open>Slot::clone\<close>: an empty slot clones to \<^verbatim>\<open>Slot{}\<close>, an occupied one to a slot built
  from the cloned key and value (cloning an element is the identity on values).
\<close>

definition Slot_clone :: "('k \<Rightarrow> u64) \<Rightarrow> ('k, 'v) slot \<Rightarrow> ('k, 'v) slot" where
  "Slot_clone hsh s =
     (if hash s = EMPTY_SLOT then Slot_default
      else case data s of
             Some (k, v) \<Rightarrow> Slot_make hsh k v
           | None \<Rightarrow> Slot_default)"

subsection \<open>Helpers outside the two source files\<close>

text \<open>
  Modelled from the spec: \<^verbatim>\<open>Math::ctlz\<close>, the count of leading zero bits of a 64-bit
  value, is not in the source files. \<open>bit_width n\<close> is the number of bits of \<open>n\<close>.
\<close>

fun bit_width :: "nat \<Rightarrow> nat" where
  "bit_width n = (if n = 0 then 0 else Suc (bit_width (n div 2)))"

declare bit_width.simps [simp del]

definition ctlz :: "nat \<Rightarrow> nat" where
  "ctlz n = 64 - bit_width n"

text \<open>
  Modelled from the spec: \<^verbatim>\<open>Math::next_pow2\<close>, which rounds its argument up to the next
  power of two, is not in the source files; this is the least power of two that is not
  below \<open>n\<close>.
\<close>

definition next_pow2 :: "nat \<Rightarrow> nat" where
  "next_pow2 n = 2 ^ bit_width (n - 1)"

text \<open>
  The allocator \<^verbatim>\<open>A::alloc\<close> is a parameter: \<open>alloc n i\<close> is what cell \<open>i\<close> of a fresh
  buffer of \<open>n\<close> cells holds when the allocator returns it. The source never writes to a
  buffer between allocating it and using it.
\<close>

definition raw_buffer :: "(nat \<Rightarrow> nat \<Rightarrow> 'c) \<Rightarrow> nat \<Rightarrow> 'c list" where
  "raw_buffer alloc n = map (alloc n) [0..<n]"

text \<open>An allocator that returns zero-filled memory: every slot reads as empty.\<close>

definition zero_alloc :: "nat \<Rightarrow> nat \<Rightarrow> ('k, 'v) slot" where
  "zero_alloc n i = Slot_default"

subsection \<open>Construction\<close>

text \<open>\<^verbatim>\<open>Map() = default\<close>.\<close>

definition Map_default :: "('k, 'v) map_rec" where
  "Map_default = \<lparr>Map_data = [], Map_capacity = 0, Map_length = 0, Map_usable = 0, Map_shift = 0\<rparr>"

text \<open>\<^verbatim>\<open>explicit Map(u64 capacity)\<close>.\<close>

definition Map_construct :: "(nat \<Rightarrow> nat \<Rightarrow> ('k, 'v) slot) \<Rightarrow> nat \<Rightarrow> ('k, 'v) map_rec" where
  "Map_construct alloc capacity =
     (let c = next_pow2 capacity in
      \<lparr>Map_data = raw_buffer alloc c, Map_capacity = c, Map_length = 0,
       Map_usable = (c div 4) * 3, Map_shift = ctlz c + 1\<rparr>)"

definition Map_empty :: "('k, 'v) map_rec \<Rightarrow> bool" where
  "Map_empty m = (Map_length m = 0)"

definition Map_full :: "('k, 'v) map_rec \<Rightarrow> bool" where
  "Map_full m = (Map_length m = Map_usable m)"

subsection \<open>Probing\<close>

text \<open>\<^verbatim>\<open>hash >> shift_\<close>, the slot a tag is at home in.\<close>

definition ideal :: "nat \<Rightarrow> u64 \<Rightarrow> nat" where
  "ideal sh h = unat (drop_bit sh h)"

text \<open>
  \<^verbatim>\<open>kidx <= idx ? idx - kidx : capacity_ + idx - kidx\<close>, the distance of slot \<open>idx\<close> from
  the home \<open>kidx\<close> of the tag it holds.
\<close>

definition displacement :: "nat \<Rightarrow> nat \<Rightarrow> nat \<Rightarrow> nat" where
  "displacement cap idx kidx = (if kidx \<le> idx then idx - kidx else cap + idx - kidx)"

text \<open>\<^verbatim>\<open>if(++idx == capacity_) idx = 0\<close>.\<close>

definition next_idx :: "nat \<Rightarrow> nat \<Rightarrow> nat" where
  "next_idx cap idx = (if idx + 1 = cap then 0 else idx + 1)"

text \<open>
  The probe loops have no bound of their own, so each is a partial function: \<open>None\<close> is a
  loop that does not return. A loop that would read a slot outside the buffer has no
  defined behaviour in the source; it is \<open>None\<close> as well.
\<close>

text \<open>
  One round of the loop of \<^verbatim>\<open>insert_slot\<close>, on the loop's variables: the buffer, \<open>idx\<close>,
  \<open>dist\<close>, the slot being carried and \<open>placement\<close> (the index of the slot the first swap
  filled). Either the loop returns (\<open>Inr\<close>: the buffer and the index of the slot the
  returned reference points to), or it goes round again (\<open>Inl\<close>: the new variables).
\<close>

type_synonym ('k, 'v) ins_state = "('k, 'v) slot list \<times> nat \<times> nat \<times> ('k, 'v) slot \<times> nat option"

definition insert_slot_step ::
  "nat \<Rightarrow> nat \<Rightarrow> ('k, 'v) ins_state \<Rightarrow> ('k, 'v) ins_state + (('k, 'v) slot list \<times> nat)" where
  "insert_slot_step sh cap st =
     (case st of (d, idx, dist, s, placement) \<Rightarrow>
        let h = hash (d ! idx) in
        if h = EMPTY_SLOT then
          Inr (d[idx := Slot_move s], (case placement of Some p \<Rightarrow> p | None \<Rightarrow> idx))
        else if h = hash s \<and> slot_key (d ! idx) = slot_key s then
          Inr (d[idx := Slot_move s], idx)
        else
          let hashidx = ideal sh h;
              hashdist = displacement cap idx hashidx
          in if hashdist < dist then
               Inl (d[idx := s], next_idx cap idx, hashdist + 1, d ! idx,
                    Some (case placement of Some p \<Rightarrow> p | None \<Rightarrow> idx))
             else
               Inl (d, next_idx cap idx, dist + 1, s, placement))"

partial_function (option) insert_slot_loop ::
  "nat \<Rightarrow> nat \<Rightarrow> ('k, 'v) ins_state \<Rightarrow> (('k, 'v) slot list \<times> nat) option" where
  "insert_slot_loop sh cap st =
     (case st of (d, idx, dist, s, placement) \<Rightarrow>
        if idx < length d then
          (case insert_slot_step sh cap st of
             Inr r \<Rightarrow> Some r
           | Inl st' \<Rightarrow> insert_slot_loop sh cap st')
        else None)"

declare insert_slot_loop.simps [code]

text \<open>\<^verbatim>\<open>Slot& insert_slot(Slot&& slot)\<close>: the new map and the index of the returned slot.\<close>

definition Map_insert_slot ::
  "('k, 'v) slot \<Rightarrow> ('k, 'v) map_rec \<Rightarrow> (('k, 'v) map_rec \<times> nat) option" where
  "Map_insert_slot s m =
     (case insert_slot_loop (Map_shift m) (Map_capacity m)
             (Map_data m, ideal (Map_shift m) (hash s), 0, s, None) of
        None \<Rightarrow> None
      | Some (d, p) \<Rightarrow> Some (m\<lparr>Map_data := d\<rparr>, p))"


text \<open>
  The loop of \<^verbatim>\<open>try_get\<close>, from slot \<open>idx\<close> at distance \<open>dist\<close>: the result is the value
  found, or \<open>None\<close> for the empty \<^verbatim>\<open>Opt\<close>.
\<close>

partial_function (option) try_get_loop ::
  "nat \<Rightarrow> nat \<Rightarrow> ('k, 'v) slot list \<Rightarrow> u64 \<Rightarrow> 'k \<Rightarrow> nat \<Rightarrow> nat \<Rightarrow> 'v option option" where
  "try_get_loop sh cap d h key idx dist =
     (if idx < length d then
        (let k = hash (d ! idx) in
         if k = EMPTY_SLOT then Some None
         else if k = h \<and> slot_key (d ! idx) = Some key then Some (slot_val (d ! idx))
         else
           let kidx = ideal sh k;
               kdist = displacement cap idx kidx
           in if kdist < dist then Some None
              else try_get_loop sh cap d h key (next_idx cap idx) (dist + 1))
      else None)"

declare try_get_loop.simps [code]

text \<open>\<^verbatim>\<open>Opt<Ref<V>> try_get(const K& key)\<close>.\<close>

definition Map_try_get :: "('k \<Rightarrow> u64) \<Rightarrow> 'k \<Rightarrow> ('k, 'v) map_rec \<Rightarrow> 'v option option" where
  "Map_try_get hsh key m =
     (if Map_empty m then Some None
      else let h = hash_key hsh key in
           try_get_loop (Map_shift m) (Map_capacity m) (Map_data m) h key
             (ideal (Map_shift m) h) 0)"

text \<open>\<^verbatim>\<open>bool contains(const K& key)\<close>.\<close>

definition Map_contains :: "('k \<Rightarrow> u64) \<Rightarrow> 'k \<Rightarrow> ('k, 'v) map_rec \<Rightarrow> bool option" where
  "Map_contains hsh key m = map_option (\<lambda>r. r \<noteq> None) (Map_try_get hsh key m)"

text \<open>The fatal abort \<^verbatim>\<open>die(...)\<close> of the map is an error value.\<close>

datatype error = Die

text \<open>\<^verbatim>\<open>V& get(const K& key)\<close>.\<close>

definition Map_get :: "('k \<Rightarrow> u64) \<Rightarrow> 'k \<Rightarrow> ('k, 'v) map_rec \<Rightarrow> (error + 'v) option" where
  "Map_get hsh key m =
     (case Map_try_get hsh key m of
        None \<Rightarrow> None
      | Some None \<Rightarrow> Some (Inl Die)
      | Some (Some v) \<Rightarrow> Some (Inr v))"

subsection \<open>Erasing\<close>

text \<open>
  The loop of \<^verbatim>\<open>fix_up\<close>: the slot after the hole moves back into the hole until that
  slot is empty or at home.
\<close>

partial_function (option) fix_up_loop ::
  "nat \<Rightarrow> nat \<Rightarrow> ('k, 'v) slot list \<Rightarrow> nat \<Rightarrow> ('k, 'v) slot list option" where
  "fix_up_loop sh cap d idx =
     (let nxt = (if idx = cap - 1 then 0 else idx + 1) in
      if idx < length d \<and> nxt < length d then
        (let nexthash = hash (d ! nxt) in
         if nexthash = EMPTY_SLOT then Some d
         else
           let next_ideal = ideal sh nexthash in
           if nxt = next_ideal then Some d
           else fix_up_loop sh cap (d[idx := Slot_move (d ! nxt), nxt := Slot_default]) nxt)
      else None)"

declare fix_up_loop.simps [code]

text \<open>
  The loop of \<^verbatim>\<open>try_erase\<close>, which looks for the slot: \<open>Some i\<close> is the index of the slot
  that holds the key, \<open>None\<close> a key that was not found. The source has no test for an
  empty slot here: an empty slot has the tag 0, its home is \<^verbatim>\<open>0 >> shift_\<close>.
\<close>

partial_function (option) try_erase_loop ::
  "nat \<Rightarrow> nat \<Rightarrow> ('k, 'v) slot list \<Rightarrow> u64 \<Rightarrow> 'k \<Rightarrow> nat \<Rightarrow> nat \<Rightarrow> nat option option" where
  "try_erase_loop sh cap d h key idx dist =
     (if idx < length d then
        (let k = hash (d ! idx) in
         if k = h \<and> slot_key (d ! idx) = Some key then Some (Some idx)
         else
           let kidx = ideal sh k;
               kdist = displacement cap idx kidx
           in if kdist < dist then Some None
              else try_erase_loop sh cap d h key (next_idx cap idx) (dist + 1))
      else None)"

declare try_erase_loop.simps [code]

text \<open>
  \<^verbatim>\<open>bool try_erase(const K& key)\<close>: the returned flag and the map afterwards. On a hit
  the slot is destroyed (\<^verbatim>\<open>~Slot()\<close> leaves the empty tag), \<^verbatim>\<open>fix_up\<close> runs from it and
  \<^verbatim>\<open>length_\<close> drops by one.
\<close>

definition Map_try_erase ::
  "('k \<Rightarrow> u64) \<Rightarrow> 'k \<Rightarrow> ('k, 'v) map_rec \<Rightarrow> (bool \<times> ('k, 'v) map_rec) option" where
  "Map_try_erase hsh key m =
     (if Map_empty m then Some (False, m)
      else let h = hash_key hsh key in
           case try_erase_loop (Map_shift m) (Map_capacity m) (Map_data m) h key
                  (ideal (Map_shift m) h) 0 of
             None \<Rightarrow> None
           | Some None \<Rightarrow> Some (False, m)
           | Some (Some idx) \<Rightarrow>
               (case fix_up_loop (Map_shift m) (Map_capacity m)
                       ((Map_data m)[idx := Slot_default]) idx of
                  None \<Rightarrow> None
                | Some d \<Rightarrow> Some (True, m\<lparr>Map_data := d, Map_length := Map_length m - 1\<rparr>)))"

text \<open>\<^verbatim>\<open>void erase(const K& key)\<close>.\<close>

definition Map_erase ::
  "('k \<Rightarrow> u64) \<Rightarrow> 'k \<Rightarrow> ('k, 'v) map_rec \<Rightarrow> (error + ('k, 'v) map_rec) option" where
  "Map_erase hsh key m =
     (case Map_try_erase hsh key m of
        None \<Rightarrow> None
      | Some (found, m') \<Rightarrow> if found then Some (Inr m') else Some (Inl Die))"

subsection \<open>Growing and inserting\<close>

text \<open>
  The loop of \<^verbatim>\<open>reserve\<close> over the old buffer: every slot that is not empty goes through
  \<^verbatim>\<open>insert_slot\<close> into the new buffer.
\<close>

fun reinsert :: "('k, 'v) slot list \<Rightarrow> ('k, 'v) map_rec \<Rightarrow> ('k, 'v) map_rec option" where
  "reinsert [] m = Some m"
| "reinsert (s # ss) m =
     (if hash s \<noteq> EMPTY_SLOT then
        (case Map_insert_slot s m of
           None \<Rightarrow> None
         | Some (m', p) \<Rightarrow> reinsert ss m')
      else reinsert ss m)"

text \<open>\<^verbatim>\<open>void reserve(u64 new_capacity)\<close>.\<close>

definition Map_reserve ::
  "(nat \<Rightarrow> nat \<Rightarrow> ('k, 'v) slot) \<Rightarrow> nat \<Rightarrow> ('k, 'v) map_rec \<Rightarrow> ('k, 'v) map_rec option" where
  "Map_reserve alloc new_capacity m =
     (if new_capacity \<le> Map_capacity m then Some m
      else
        let old_data = Map_data m;
            old_capacity = Map_capacity m;
            m1 = m\<lparr>Map_capacity := new_capacity,
                   Map_data := raw_buffer alloc new_capacity,
                   Map_usable := (new_capacity div 4) * 3,
                   Map_shift := ctlz new_capacity + 1\<rparr>
        in reinsert (take old_capacity old_data) m1)"

text \<open>\<^verbatim>\<open>void grow()\<close>.\<close>

definition Map_grow ::
  "(nat \<Rightarrow> nat \<Rightarrow> ('k, 'v) slot) \<Rightarrow> ('k, 'v) map_rec \<Rightarrow> ('k, 'v) map_rec option" where
  "Map_grow alloc m =
     (let new_capacity = (if Map_capacity m \<noteq> 0 then 2 * Map_capacity m else 32)
      in Map_reserve alloc new_capacity m)"

text \<open>
  \<^verbatim>\<open>V& insert(K&& key, V&& value)\<close>; \<^verbatim>\<open>emplace\<close> and the overload for a trivial key run
  the same statements. The result is the map afterwards and the index of the slot whose
  value the returned reference points to.
\<close>

definition Map_insert ::
  "('k \<Rightarrow> u64) \<Rightarrow> (nat \<Rightarrow> nat \<Rightarrow> ('k, 'v) slot) \<Rightarrow> 'k \<Rightarrow> 'v \<Rightarrow> ('k, 'v) map_rec
     \<Rightarrow> (('k, 'v) map_rec \<times> nat) option" where
  "Map_insert hsh alloc key val m =
     (case (if Map_full m then Map_grow alloc m else Some m) of
        None \<Rightarrow> None
      | Some m1 \<Rightarrow>
          (case Map_insert_slot (Slot_make hsh key val) m1 of
             None \<Rightarrow> None
           | Some (m2, placed) \<Rightarrow> Some (m2\<lparr>Map_length := Map_length m2 + 1\<rparr>, placed)))"

text \<open>
  \<^verbatim>\<open>void clear()\<close>: every slot is destroyed, or the buffer is overwritten with
  \<^verbatim>\<open>EMPTY_SLOT\<close> bytes; either way every slot is empty afterwards.
\<close>

definition Map_clear :: "('k, 'v) map_rec \<Rightarrow> ('k, 'v) map_rec" where
  "Map_clear m = m\<lparr>Map_data := map (\<lambda>s. Slot_default) (Map_data m), Map_length := 0\<rparr>"

subsection \<open>Cloning\<close>

text \<open>
  \<^verbatim>\<open>Map clone() const\<close>. The flag \<open>trivial\<close> is \<^verbatim>\<open>Trivial<K> && Trivial<V>\<close>, which picks
  the branch at compile time: \<^verbatim>\<open>memcpy\<close> of \<^verbatim>\<open>capacity_\<close> slots, or the loop
  \<^verbatim>\<open>for(u64 i = 0; i < length_; i++)\<close> that constructs a clone of slot \<open>i\<close> in slot \<open>i\<close>
  of the new buffer.
\<close>

definition Map_clone ::
  "('k \<Rightarrow> u64) \<Rightarrow> (nat \<Rightarrow> nat \<Rightarrow> ('k, 'v) slot) \<Rightarrow> bool \<Rightarrow> ('k, 'v) map_rec \<Rightarrow> ('k, 'v) map_rec" where
  "Map_clone hsh alloc trivial m =
     (let ret = (Map_construct alloc (Map_capacity m))\<lparr>Map_length := Map_length m\<rparr> in
      if trivial then
        ret\<lparr>Map_data := take (Map_capacity m) (Map_data m) @ drop (Map_capacity m) (Map_data ret)\<rparr>
      else
        ret\<lparr>Map_data := fold (\<lambda>i d. d[i := Slot_clone hsh (Map_data m ! i)])
                            [0..<Map_length m] (Map_data ret)\<rparr>)"


subsection \<open>Moving\<close>

text \<open>
  A move names two objects, and \<^verbatim>\<open>operator=(Map&& src)\<close> can be handed the object it is
  called on. Objects therefore live in a store, a function from addresses to objects, and
  the statements of the source are single field updates of that store.
\<close>

type_synonym 'm store = "nat \<Rightarrow> 'm"

text \<open>
  What a destructor does to the elements is recorded as it happens. \<open>Destruct a i p\<close>: the
  destructor of the element \<open>p\<close> ran, in cell \<open>i\<close> of the buffer that the object at address
  \<open>a\<close> pointed to. \<open>Free a\<close>: \<^verbatim>\<open>A::free\<close> was called on the buffer of that object. The
  state of a program with containers is the store together with this record.
\<close>

datatype 'e effect = Destruct nat nat 'e | Free nat

type_synonym ('m, 'e) world = "'m store \<times> 'e effect list"

text \<open>
  \<^verbatim>\<open>~Slot()\<close> on slot \<open>i\<close> of the buffer of the object at \<open>this\<close>: with
  \<^verbatim>\<open>Must_Destruct<Pair<K, V>>\<close> (the flag \<open>must_destruct\<close>) it runs \<^verbatim>\<open>data.destruct()\<close> on
  the pair of a slot that is not empty.
\<close>

definition Slot_destructs ::
  "bool \<Rightarrow> nat \<Rightarrow> nat \<Rightarrow> ('k, 'v) slot \<Rightarrow> ('k \<times> 'v) effect list" where
  "Slot_destructs must_destruct this i s =
     (if must_destruct \<and> hash s \<noteq> EMPTY_SLOT
      then (case data s of Some p \<Rightarrow> [Destruct this i p] | None \<Rightarrow> [])
      else [])"

text \<open>
  \<^verbatim>\<open>~Map()\<close>. With \<^verbatim>\<open>Must_Destruct<Pair<K, V>>\<close> it runs \<^verbatim>\<open>~Slot()\<close> on the slots
  \<open>0 \<dots> capacity_ - 1\<close> of the buffer. Then the buffer is freed and the fields are zeroed.
  \<open>Map_destructs\<close> is what is destroyed and freed, \<open>Map_destroy\<close> the object afterwards.
\<close>

definition Map_destructs :: "bool \<Rightarrow> nat \<Rightarrow> ('k, 'v) map_rec \<Rightarrow> ('k \<times> 'v) effect list" where
  "Map_destructs must_destruct this m =
     (if must_destruct then
        concat (map (\<lambda>(i, s). Slot_destructs must_destruct this i s)
                  (zip [0..<Map_capacity m] (Map_data m)))
      else []) @ [Free this]"

definition Map_destroy :: "('k, 'v) map_rec \<Rightarrow> ('k, 'v) map_rec" where
  "Map_destroy m =
     m\<lparr>Map_data := [], Map_capacity := 0, Map_length := 0, Map_usable := 0, Map_shift := 0\<rparr>"

definition Map_destructor ::
  "bool \<Rightarrow> nat \<Rightarrow> (('k, 'v) map_rec, 'k \<times> 'v) world \<Rightarrow> (('k, 'v) map_rec, 'k \<times> 'v) world" where
  "Map_destructor must_destruct this w =
     ((fst w)(this := Map_destroy (fst w this)),
      snd w @ Map_destructs must_destruct this (fst w this))"

text \<open>The ten assignments that \<^verbatim>\<open>Map(Map&& src)\<close> and \<^verbatim>\<open>operator=(Map&& src)\<close> share.\<close>

definition Map_transfer :: "nat \<Rightarrow> nat \<Rightarrow> ('k, 'v) map_rec store \<Rightarrow> ('k, 'v) map_rec store" where
  "Map_transfer this src st =
     (let st = st(this := (st this)\<lparr>Map_data := Map_data (st src)\<rparr>);
          st = st(this := (st this)\<lparr>Map_capacity := Map_capacity (st src)\<rparr>);
          st = st(this := (st this)\<lparr>Map_length := Map_length (st src)\<rparr>);
          st = st(this := (st this)\<lparr>Map_usable := Map_usable (st src)\<rparr>);
          st = st(this := (st this)\<lparr>Map_shift := Map_shift (st src)\<rparr>);
          st = st(src := (st src)\<lparr>Map_data := []\<rparr>);
          st = st(src := (st src)\<lparr>Map_capacity := 0\<rparr>);
          st = st(src := (st src)\<lparr>Map_length := 0\<rparr>);
          st = st(src := (st src)\<lparr>Map_usable := 0\<rparr>);
          st = st(src := (st src)\<lparr>Map_shift := 0\<rparr>)
      in st)"

text \<open>
  \<^verbatim>\<open>Map(Map&& src)\<close>, constructing the object at address \<open>this\<close>: the assignments and
  nothing else.
\<close>

definition Map_move_construct ::
  "nat \<Rightarrow> nat \<Rightarrow> (('k, 'v) map_rec, 'k \<times> 'v) world \<Rightarrow> (('k, 'v) map_rec, 'k \<times> 'v) world" where
  "Map_move_construct this src w = (Map_transfer this src (fst w), snd w)"

text \<open>\<^verbatim>\<open>Map& operator=(Map&& src)\<close>: first \<^verbatim>\<open>this->~Map()\<close>, then the assignments.\<close>

definition Map_move_assign ::
  "bool \<Rightarrow> nat \<Rightarrow> nat \<Rightarrow> (('k, 'v) map_rec, 'k \<times> 'v) world
     \<Rightarrow> (('k, 'v) map_rec, 'k \<times> 'v) world" where
  "Map_move_assign must_destruct this src w =
     (let w = Map_destructor must_destruct this w
      in (Map_transfer this src (fst w), snd w))"

subsection \<open>What the table keeps\<close>

text \<open>
  A slot is occupied when its tag is not \<^verbatim>\<open>EMPTY_SLOT\<close>. The slot before \<open>idx\<close> on the
  cyclic probe sequence is \<open>prev_idx\<close>, and the displacement of a slot is the distance from
  the home of its tag to the index where it sits, computed as the source computes
  \<^verbatim>\<open>kdist\<close> and \<^verbatim>\<open>hashdist\<close>.
\<close>

definition occupied :: "('k, 'v) slot \<Rightarrow> bool" where
  "occupied s = (hash s \<noteq> EMPTY_SLOT)"

definition prev_idx :: "nat \<Rightarrow> nat \<Rightarrow> nat" where
  "prev_idx cap idx = (if idx = 0 then cap - 1 else idx - 1)"

definition slot_disp :: "nat \<Rightarrow> nat \<Rightarrow> nat \<Rightarrow> ('k, 'v) slot \<Rightarrow> nat" where
  "slot_disp sh cap idx s = displacement cap idx (ideal sh (hash s))"

text \<open>
  The invariant of Robin Hood hashing in the form that the loops keep: the home of every
  occupied slot is an index of the table, and an occupied slot that is not at home comes
  after an occupied slot whose displacement is at most one less. From one slot to the next
  the displacement grows by at most one; it may drop by any amount.
\<close>

definition robin_hood :: "nat \<Rightarrow> ('k, 'v) slot list \<Rightarrow> bool" where
  "robin_hood sh d =
     (\<forall>i \<in> {0..<length d}. occupied (d ! i) \<longrightarrow>
        ideal sh (hash (d ! i)) < length d \<and>
        (0 < slot_disp sh (length d) i (d ! i) \<longrightarrow>
           occupied (d ! prev_idx (length d) i) \<and>
           slot_disp sh (length d) i (d ! i)
             \<le> slot_disp sh (length d) (prev_idx (length d) i) (d ! prev_idx (length d) i) + 1))"

text \<open>
  An occupied slot holds a pair and the tag of the pair's key; no two occupied slots hold
  the same key.
\<close>

definition slot_ok :: "('k \<Rightarrow> u64) \<Rightarrow> ('k, 'v) slot \<Rightarrow> bool" where
  "slot_ok hsh s = (case data s of Some (k, v) \<Rightarrow> hash s = hash_key hsh k | None \<Rightarrow> False)"

definition slots_ok :: "('k \<Rightarrow> u64) \<Rightarrow> ('k, 'v) slot list \<Rightarrow> bool" where
  "slots_ok hsh d = (\<forall>i \<in> {0..<length d}. occupied (d ! i) \<longrightarrow> slot_ok hsh (d ! i))"

definition keys_distinct :: "('k, 'v) slot list \<Rightarrow> bool" where
  "keys_distinct d =
     (\<forall>i \<in> {0..<length d}. \<forall>j \<in> {0..<length d}.
        occupied (d ! i) \<and> occupied (d ! j) \<and> slot_key (d ! i) = slot_key (d ! j) \<longrightarrow> i = j)"

definition table_ok :: "('k \<Rightarrow> u64) \<Rightarrow> nat \<Rightarrow> ('k, 'v) slot list \<Rightarrow> bool" where
  "table_ok hsh sh d = (robin_hood sh d \<and> slots_ok hsh d \<and> keys_distinct d)"

text \<open>
  The pairs that a table stores, the number of its occupied slots, and the sum of their
  displacements (which every round of \<^verbatim>\<open>fix_up\<close> lowers).
\<close>

definition stored :: "('k, 'v) slot list \<Rightarrow> 'k \<Rightarrow> 'v \<Rightarrow> bool" where
  "stored d key val = (\<exists>i < length d. occupied (d ! i) \<and> data (d ! i) = Some (key, val))"

definition occ_count :: "('k, 'v) slot list \<Rightarrow> nat" where
  "occ_count d = length (filter occupied d)"

definition total_disp :: "nat \<Rightarrow> ('k, 'v) slot list \<Rightarrow> nat" where
  "total_disp sh d =
     (\<Sum>i<length d. if occupied (d ! i) then slot_disp sh (length d) i (d ! i) else 0)"

text \<open>
  A well-formed map. The buffer has \<^verbatim>\<open>capacity_\<close> slots, \<^verbatim>\<open>shift_\<close> and \<^verbatim>\<open>usable_\<close> are what
  the constructor and \<^verbatim>\<open>reserve\<close> compute from the capacity, the table keeps the invariant,
  \<^verbatim>\<open>length_\<close> is at least the number of occupied slots (an insert of a stored key counts
  it again), and a map of fewer than two slots has \<^verbatim>\<open>length_\<close> 0.
\<close>

definition Map_wf :: "('k \<Rightarrow> u64) \<Rightarrow> ('k, 'v) map_rec \<Rightarrow> bool" where
  "Map_wf hsh m =
     (length (Map_data m) = Map_capacity m \<and>
      (0 < Map_capacity m \<longrightarrow> Map_shift m = ctlz (Map_capacity m) + 1) \<and>
      Map_usable m = (Map_capacity m div 4) * 3 \<and>
      table_ok hsh (Map_shift m) (Map_data m) \<and>
      occ_count (Map_data m) \<le> Map_length m \<and>
      (Map_length m = 0 \<or> 2 \<le> Map_capacity m))"

text \<open>
  A well-formed map whose \<^verbatim>\<open>length_\<close> has not passed \<^verbatim>\<open>usable_\<close> and whose capacity is
  not 1.
\<close>

definition Map_roomy :: "('k \<Rightarrow> u64) \<Rightarrow> ('k, 'v) map_rec \<Rightarrow> bool" where
  "Map_roomy hsh m = (Map_wf hsh m \<and> Map_capacity m \<noteq> 1 \<and> Map_length m \<le> Map_usable m)"

text \<open>
  A state of the loop of \<^verbatim>\<open>insert_slot\<close> in which no slot of the table is empty and no
  slot holds the key of the carried slot.
\<close>

definition full_without :: "nat \<Rightarrow> ('k, 'v) ins_state \<Rightarrow> bool" where
  "full_without cap st =
     (case st of (d, idx, dist, s, pl) \<Rightarrow>
        cap = length d \<and> idx < length d \<and> occupied s \<and> keys_distinct d \<and>
        (\<forall>i<length d. occupied (d ! i) \<and> slot_key (d ! i) \<noteq> slot_key s))"

text \<open>
  The balance of the table as the specification words it. The scan from \<open>start\<close> visits
  the slots \<open>start, start + 1, \<dots>\<close> cyclically up to the first empty one, and the
  displacements met on the way are to be non-decreasing, for the scan from the ideal index
  of every occupied slot.
\<close>

definition scan_displacements :: "nat \<Rightarrow> nat \<Rightarrow> ('k, 'v) slot list \<Rightarrow> nat list" where
  "scan_displacements sh start d =
     map (\<lambda>i. displacement (length d) i (ideal sh (hash (d ! i))))
       (takeWhile (\<lambda>i. hash (d ! i) \<noteq> EMPTY_SLOT)
          (map (\<lambda>j. (start + j) mod length d) [0..<length d]))"

definition claimed_balance :: "nat \<Rightarrow> ('k, 'v) slot list \<Rightarrow> bool" where
  "claimed_balance sh d =
     list_all (\<lambda>i. hash (d ! i) \<noteq> EMPTY_SLOT \<longrightarrow>
                    sorted (scan_displacements sh (ideal sh (hash (d ! i))) d))
       [0..<length d]"

subsection \<open>Runs of operations on a map\<close>

text \<open>\<^verbatim>\<open>grow()\<close> called \<open>n\<close> times in a row.\<close>

fun Map_grow_times ::
  "(nat \<Rightarrow> nat \<Rightarrow> ('k, 'v) slot) \<Rightarrow> nat \<Rightarrow> ('k, 'v) map_rec \<Rightarrow> ('k, 'v) map_rec option" where
  "Map_grow_times alloc 0 m = Some m"
| "Map_grow_times alloc (Suc n) m = Option.bind (Map_grow alloc m) (Map_grow_times alloc n)"

text \<open>
  A caller's sequence of calls of \<^verbatim>\<open>insert\<close>, \<^verbatim>\<open>try_erase\<close>, \<^verbatim>\<open>grow\<close>, \<^verbatim>\<open>reserve\<close> and
  \<^verbatim>\<open>clear\<close>, and the map it leaves; \<open>None\<close> when a call does not return.
\<close>

datatype ('k, 'v) map_op =
  Do_insert 'k 'v | Do_try_erase 'k | Do_grow | Do_reserve nat | Do_clear

fun Map_apply ::
  "('k \<Rightarrow> u64) \<Rightarrow> (nat \<Rightarrow> nat \<Rightarrow> ('k, 'v) slot) \<Rightarrow> ('k, 'v) map_op \<Rightarrow> ('k, 'v) map_rec
     \<Rightarrow> ('k, 'v) map_rec option" where
  "Map_apply hsh alloc (Do_insert k v) m = map_option fst (Map_insert hsh alloc k v m)"
| "Map_apply hsh alloc (Do_try_erase k) m = map_option snd (Map_try_erase hsh k m)"
| "Map_apply hsh alloc Do_grow m = Map_grow alloc m"
| "Map_apply hsh alloc (Do_reserve n) m = Map_reserve alloc n m"
| "Map_apply hsh alloc Do_clear m = Some (Map_clear m)"

fun Map_run ::
  "('k \<Rightarrow> u64) \<Rightarrow> (nat \<Rightarrow> nat \<Rightarrow> ('k, 'v) slot) \<Rightarrow> ('k, 'v) map_op list \<Rightarrow> ('k, 'v) map_rec
     \<Rightarrow> ('k, 'v) map_rec option" where
  "Map_run hsh alloc [] m = Some m"
| "Map_run hsh alloc (x # xs) m = Option.bind (Map_apply hsh alloc x m) (Map_run hsh alloc xs)"

text \<open>
  What the caller expects to find afterwards: the value of the last insert of a key that
  no later \<^verbatim>\<open>try_erase\<close> or \<^verbatim>\<open>clear\<close> has removed. \<^verbatim>\<open>grow\<close> and \<^verbatim>\<open>reserve\<close> change none of
  it.
\<close>

fun entries_op :: "('k, 'v) map_op \<Rightarrow> ('k \<rightharpoonup> 'v) \<Rightarrow> ('k \<rightharpoonup> 'v)" where
  "entries_op (Do_insert k v) f = f(k \<mapsto> v)"
| "entries_op (Do_try_erase k) f = f(k := None)"
| "entries_op Do_grow f = f"
| "entries_op (Do_reserve n) f = f"
| "entries_op Do_clear f = Map.empty"

definition entries :: "('k, 'v) map_op list \<Rightarrow> ('k \<rightharpoonup> 'v)" where
  "entries xs = fold entries_op xs Map.empty"

section \<open>The binary heap of \<^verbatim>\<open>rpp/heap.h\<close>\<close>

text \<open>
  The buffer \<^verbatim>\<open>data_\<close> is the list of its \<^verbatim>\<open>capacity_\<close> cells; the cells from
  \<^verbatim>\<open>length_\<close> on hold whatever the allocator or an earlier operation left there. The
  element type is any linear order, its \<^verbatim>\<open>operator<\<close> is \<open><\<close>.
\<close>

record 'a heap_rec =
  Heap_data :: "'a list"
  Heap_length :: nat
  Heap_capacity :: nat

text \<open>\<^verbatim>\<open>Heap() = default\<close>.\<close>

definition Heap_default :: "'a heap_rec" where
  "Heap_default = \<lparr>Heap_data = [], Heap_length = 0, Heap_capacity = 0\<rparr>"

text \<open>\<^verbatim>\<open>explicit Heap(u64 capacity)\<close>.\<close>

definition Heap_construct :: "(nat \<Rightarrow> nat \<Rightarrow> 'a) \<Rightarrow> nat \<Rightarrow> 'a heap_rec" where
  "Heap_construct alloc capacity =
     \<lparr>Heap_data = raw_buffer alloc capacity, Heap_length = 0, Heap_capacity = capacity\<rparr>"

definition Heap_empty :: "'a heap_rec \<Rightarrow> bool" where
  "Heap_empty h = (Heap_length h = 0)"

definition Heap_full :: "'a heap_rec \<Rightarrow> bool" where
  "Heap_full h = (Heap_length h = Heap_capacity h)"

text \<open>
  \<^verbatim>\<open>void reserve(u64 new_capacity)\<close>: the first \<^verbatim>\<open>length_\<close> cells are copied or moved
  into the new buffer.
\<close>

definition Heap_reserve :: "(nat \<Rightarrow> nat \<Rightarrow> 'a) \<Rightarrow> nat \<Rightarrow> 'a heap_rec \<Rightarrow> 'a heap_rec" where
  "Heap_reserve alloc new_capacity h =
     (if new_capacity \<le> Heap_capacity h then h
      else
        let new_data = take (Heap_length h) (Heap_data h)
                         @ drop (Heap_length h) (raw_buffer alloc new_capacity)
        in h\<lparr>Heap_capacity := new_capacity, Heap_data := new_data\<rparr>)"

text \<open>\<^verbatim>\<open>void grow()\<close>.\<close>

definition Heap_grow :: "(nat \<Rightarrow> nat \<Rightarrow> 'a) \<Rightarrow> 'a heap_rec \<Rightarrow> 'a heap_rec" where
  "Heap_grow alloc h =
     (let new_capacity = (if Heap_capacity h \<noteq> 0 then 2 * Heap_capacity h else 8)
      in Heap_reserve alloc new_capacity h)"

text \<open>\<^verbatim>\<open>void clear()\<close>.\<close>

definition Heap_clear :: "'a heap_rec \<Rightarrow> 'a heap_rec" where
  "Heap_clear h = h\<lparr>Heap_length := 0\<rparr>"

text \<open>\<^verbatim>\<open>void swap(u64 a, u64 b)\<close>.\<close>

definition Heap_swap :: "nat \<Rightarrow> nat \<Rightarrow> 'a heap_rec \<Rightarrow> 'a heap_rec" where
  "Heap_swap a b h =
     (let temp = Heap_data h ! a
      in h\<lparr>Heap_data := (Heap_data h)[a := Heap_data h ! b, b := temp]\<rparr>)"

text \<open>\<^verbatim>\<open>void reheap_up(u64 idx)\<close>.\<close>

function reheap_up :: "nat \<Rightarrow> ('a::linorder) heap_rec \<Rightarrow> 'a heap_rec" where
  "reheap_up idx h =
     (if idx \<noteq> 0 then
        (let parent_idx = (idx - 1) div 2;
             elem = Heap_data h ! idx;
             parent = Heap_data h ! parent_idx
         in if elem < parent then reheap_up parent_idx (Heap_swap idx parent_idx h)
            else h)
      else h)"
  by pat_completeness auto
termination
  by (relation "measure (\<lambda>(idx, h). idx)") auto

declare reheap_up.simps [simp del]

text \<open>\<^verbatim>\<open>void reheap_down(u64 idx)\<close>.\<close>

function reheap_down :: "nat \<Rightarrow> ('a::linorder) heap_rec \<Rightarrow> 'a heap_rec" where
  "reheap_down idx h =
     (let parent = Heap_data h ! idx;
          left = idx * 2 + 1;
          right = left + 1
      in if right < Heap_length h then
           (let lchild = Heap_data h ! left;
                rchild = Heap_data h ! right
            in if lchild < parent \<and> \<not> (rchild < lchild) then
                 reheap_down left (Heap_swap idx left h)
               else if rchild < parent \<and> \<not> (lchild < rchild) then
                 reheap_down right (Heap_swap idx right h)
               else h)
         else if left < Heap_length h then
           (let lchild = Heap_data h ! left
            in if lchild < parent then Heap_swap idx left h else h)
         else h)"
  by pat_completeness auto
termination
  by (relation "measure (\<lambda>(idx, h). Heap_length h - idx)") (auto simp: Heap_swap_def Let_def)

declare reheap_down.simps [simp del]

text \<open>
  \<^verbatim>\<open>void push(T&& value)\<close>; \<^verbatim>\<open>emplace\<close> runs the same statements on the element it
  constructs.
\<close>

definition Heap_push :: "(nat \<Rightarrow> nat \<Rightarrow> 'a) \<Rightarrow> ('a::linorder) \<Rightarrow> 'a heap_rec \<Rightarrow> 'a heap_rec" where
  "Heap_push alloc v h =
     (let h1 = (if Heap_full h then Heap_grow alloc h else h);
          h2 = h1\<lparr>Heap_data := (Heap_data h1)[Heap_length h1 := v],
                  Heap_length := Heap_length h1 + 1\<rparr>
      in reheap_up (Heap_length h2 - 1) h2)"

text \<open>A failed \<^verbatim>\<open>assert\<close> ends the process; it is an error value.\<close>

datatype abort = Assert_failed

text \<open>\<^verbatim>\<open>void pop()\<close>, with its \<^verbatim>\<open>assert(length_ > 0)\<close>.\<close>

definition Heap_pop :: "('a::linorder) heap_rec \<Rightarrow> abort + 'a heap_rec" where
  "Heap_pop h =
     (if Heap_length h > 0 then
        (let h1 = h\<lparr>Heap_length := Heap_length h - 1\<rparr>
         in if Heap_length h1 > 0 then
              Inr (reheap_down 0 (h1\<lparr>Heap_data := (Heap_data h1)[0 := Heap_data h1 ! Heap_length h1]\<rparr>))
            else Inr h1)
      else Inl Assert_failed)"

text \<open>\<^verbatim>\<open>T& top()\<close>: the first cell, with no test of its own.\<close>

definition Heap_top :: "'a heap_rec \<Rightarrow> 'a" where
  "Heap_top h = Heap_data h ! 0"

text \<open>
  \<^verbatim>\<open>Heap clone() const\<close>: a buffer of the same capacity whose first \<^verbatim>\<open>length_\<close> cells
  are clones or copies of the original's.
\<close>

definition Heap_clone :: "(nat \<Rightarrow> nat \<Rightarrow> 'a) \<Rightarrow> 'a heap_rec \<Rightarrow> 'a heap_rec" where
  "Heap_clone alloc h =
     \<lparr>Heap_data = take (Heap_length h) (Heap_data h)
                    @ drop (Heap_length h) (raw_buffer alloc (Heap_capacity h)),
      Heap_length = Heap_length h, Heap_capacity = Heap_capacity h\<rparr>"

text \<open>
  \<^verbatim>\<open>~Heap()\<close>. With \<^verbatim>\<open>Must_Destruct<T>\<close> it runs \<^verbatim>\<open>~T()\<close> on the cells
  \<open>0 \<dots> length_ - 1\<close>, which \<^verbatim>\<open>begin()\<close> and \<^verbatim>\<open>end()\<close> delimit; then the buffer is freed and
  the fields are zeroed.
\<close>

definition Heap_destructs :: "bool \<Rightarrow> nat \<Rightarrow> 'a heap_rec \<Rightarrow> 'a effect list" where
  "Heap_destructs must_destruct this h =
     (if must_destruct then
        map (\<lambda>(i, v). Destruct this i v) (zip [0..<Heap_length h] (Heap_data h))
      else []) @ [Free this]"

definition Heap_destroy :: "'a heap_rec \<Rightarrow> 'a heap_rec" where
  "Heap_destroy h = h\<lparr>Heap_data := [], Heap_length := 0, Heap_capacity := 0\<rparr>"

definition Heap_destructor ::
  "bool \<Rightarrow> nat \<Rightarrow> ('a heap_rec, 'a) world \<Rightarrow> ('a heap_rec, 'a) world" where
  "Heap_destructor must_destruct this w =
     ((fst w)(this := Heap_destroy (fst w this)),
      snd w @ Heap_destructs must_destruct this (fst w this))"

text \<open>The six assignments of \<^verbatim>\<open>Heap(Heap&& src)\<close> and \<^verbatim>\<open>operator=(Heap&& src)\<close>.\<close>

definition Heap_transfer :: "nat \<Rightarrow> nat \<Rightarrow> 'a heap_rec store \<Rightarrow> 'a heap_rec store" where
  "Heap_transfer this src st =
     (let st = st(this := (st this)\<lparr>Heap_data := Heap_data (st src)\<rparr>);
          st = st(this := (st this)\<lparr>Heap_length := Heap_length (st src)\<rparr>);
          st = st(this := (st this)\<lparr>Heap_capacity := Heap_capacity (st src)\<rparr>);
          st = st(src := (st src)\<lparr>Heap_data := []\<rparr>);
          st = st(src := (st src)\<lparr>Heap_length := 0\<rparr>);
          st = st(src := (st src)\<lparr>Heap_capacity := 0\<rparr>)
      in st)"

text \<open>\<^verbatim>\<open>Heap(Heap&& src)\<close>: the assignments and nothing else.\<close>

definition Heap_move_construct ::
  "nat \<Rightarrow> nat \<Rightarrow> ('a heap_rec, 'a) world \<Rightarrow> ('a heap_rec, 'a) world" where
  "Heap_move_construct this src w = (Heap_transfer this src (fst w), snd w)"

text \<open>\<^verbatim>\<open>Heap& operator=(Heap&& src)\<close>: first \<^verbatim>\<open>this->~Heap()\<close>, then the assignments.\<close>

definition Heap_move_assign ::
  "bool \<Rightarrow> nat \<Rightarrow> nat \<Rightarrow> ('a heap_rec, 'a) world \<Rightarrow> ('a heap_rec, 'a) world" where
  "Heap_move_assign must_destruct this src w =
     (let w = Heap_destructor must_destruct this w
      in (Heap_transfer this src (fst w), snd w))"

text \<open>
  A run of mutating operations; a pop on an empty heap ends it with the failed assertion.
\<close>

datatype 'a heap_op = Push 'a | Pop | Reserve nat | Grow | Clear

fun Heap_run ::
  "(nat \<Rightarrow> nat \<Rightarrow> 'a) \<Rightarrow> ('a::linorder) heap_op list \<Rightarrow> 'a heap_rec \<Rightarrow> abort + 'a heap_rec" where
  "Heap_run alloc [] h = Inr h"
| "Heap_run alloc (Push v # ops) h = Heap_run alloc ops (Heap_push alloc v h)"
| "Heap_run alloc (Pop # ops) h =
     (case Heap_pop h of Inl e \<Rightarrow> Inl e | Inr h' \<Rightarrow> Heap_run alloc ops h')"
| "Heap_run alloc (Reserve n # ops) h = Heap_run alloc ops (Heap_reserve alloc n h)"
| "Heap_run alloc (Grow # ops) h = Heap_run alloc ops (Heap_grow alloc h)"
| "Heap_run alloc (Clear # ops) h = Heap_run alloc ops (Heap_clear h)"

subsection \<open>What the heap promises\<close>

text \<open>The buffer has \<^verbatim>\<open>capacity_\<close> cells and the live cells are among them.\<close>

definition Heap_wf :: "'a heap_rec \<Rightarrow> bool" where
  "Heap_wf h = (length (Heap_data h) = Heap_capacity h \<and> Heap_length h \<le> Heap_capacity h)"

text \<open>
  The structural invariant: for every index \<open>i\<close> in \<open>[1, length)\<close> the cell of the parent
  \<open>(i - 1) / 2\<close> is not above cell \<open>i\<close>.
\<close>

definition heap_ordered :: "('a::linorder) heap_rec \<Rightarrow> bool" where
  "heap_ordered h =
     (\<forall>i \<in> {1..<Heap_length h}. Heap_data h ! ((i - 1) div 2) \<le> Heap_data h ! i)"

definition Heap_inv :: "('a::linorder) heap_rec \<Rightarrow> bool" where
  "Heap_inv h = (Heap_wf h \<and> heap_ordered h)"

text \<open>The elements the heap holds: the first \<^verbatim>\<open>length_\<close> cells, as a multiset.\<close>

definition held :: "'a heap_rec \<Rightarrow> 'a multiset" where
  "held h = mset (take (Heap_length h) (Heap_data h))"

text \<open>
  The reference the runs are mirrored against: a multiset that a push adds to and a pop
  takes the minimum from; \<open>None\<close> is a pop on the empty multiset.
\<close>

fun ref_run :: "('a::linorder) heap_op list \<Rightarrow> 'a multiset \<Rightarrow> 'a multiset option" where
  "ref_run [] M = Some M"
| "ref_run (Push v # ops) M = ref_run ops (add_mset v M)"
| "ref_run (Pop # ops) M = (if M = {#} then None else ref_run ops (M - {#Min_mset M#}))"
| "ref_run (Reserve n # ops) M = ref_run ops M"
| "ref_run (Grow # ops) M = ref_run ops M"
| "ref_run (Clear # ops) M = ref_run ops {#}"

text \<open>
  The invariants of the two repair loops. While \<^verbatim>\<open>reheap_up\<close> is at \<open>k\<close>, every cell but
  \<open>k\<close> is in order with its parent, and the children of \<open>k\<close> are in order with the parent of
  \<open>k\<close>. While \<^verbatim>\<open>reheap_down\<close> is at \<open>k\<close>, every cell but the children of \<open>k\<close> is in order
  with its parent, and the children of \<open>k\<close> are in order with the parent of \<open>k\<close>.
\<close>

definition up_inv :: "nat \<Rightarrow> ('a::linorder) heap_rec \<Rightarrow> bool" where
  "up_inv k h =
     ((\<forall>i. 0 < i \<and> i < Heap_length h \<and> i \<noteq> k \<longrightarrow>
            Heap_data h ! ((i - 1) div 2) \<le> Heap_data h ! i) \<and>
      (\<forall>i. 0 < i \<and> i < Heap_length h \<and> (i - 1) div 2 = k \<and> 0 < k \<longrightarrow>
            Heap_data h ! ((k - 1) div 2) \<le> Heap_data h ! i))"

definition down_inv :: "nat \<Rightarrow> ('a::linorder) heap_rec \<Rightarrow> bool" where
  "down_inv k h =
     ((\<forall>i. 0 < i \<and> i < Heap_length h \<and> (i - 1) div 2 \<noteq> k \<longrightarrow>
            Heap_data h ! ((i - 1) div 2) \<le> Heap_data h ! i) \<and>
      (\<forall>i. 0 < i \<and> i < Heap_length h \<and> (i - 1) div 2 = k \<and> 0 < k \<longrightarrow>
            Heap_data h ! ((k - 1) div 2) \<le> Heap_data h ! i))"

section \<open>Example inputs\<close>

text \<open>
  The element type's \<^verbatim>\<open>hash\<close> is a parameter of the model. The examples use a hash that
  puts the low three bits of a numeric key into the top three bits of the hash: in a table
  of 8 slots (\<^verbatim>\<open>shift_\<close> 61) key \<open>k\<close> is at home in slot \<open>k mod 8\<close>, in a table of 2 slots
  (\<^verbatim>\<open>shift_\<close> 63) in slot \<open>k mod 8 div 4\<close>. A string hashes as the sum of its bytes, so
  \<open>''a''\<close> (97) is at home in slot 1 of 8 and \<open>''b''\<close> (98) in slot 2.
\<close>

definition example_hash :: "nat \<Rightarrow> u64" where
  "example_hash k = push_bit 61 (word_of_nat k)"

definition string_hash :: "string \<Rightarrow> u64" where
  "string_hash s = example_hash (sum_list (map of_char s))"

text \<open>An insert after a run of operations that returned.\<close>

definition then_insert ::
  "('k \<Rightarrow> u64) \<Rightarrow> (nat \<Rightarrow> nat \<Rightarrow> ('k, 'v) slot) \<Rightarrow> 'k \<Rightarrow> 'v \<Rightarrow> ('k, 'v) map_rec option
     \<Rightarrow> ('k, 'v) map_rec option" where
  "then_insert hsh alloc key val mo =
     Option.bind mo (\<lambda>m. map_option fst (Map_insert hsh alloc key val m))"

text \<open>
  The scenario of the spec: a map of capacity 8, then \<^verbatim>\<open>insert("a",1)\<close>,
  \<^verbatim>\<open>insert("b",2)\<close>, \<^verbatim>\<open>insert("a",3)\<close>; and the same map before the third insert.
\<close>

definition two_keys :: "(string, nat) map_rec option" where
  "two_keys =
     then_insert string_hash zero_alloc ''b'' 2
       (then_insert string_hash zero_alloc ''a'' 1 (Some (Map_construct zero_alloc 8)))"

definition spec_scenario :: "(string, nat) map_rec option" where
  "spec_scenario = then_insert string_hash zero_alloc ''a'' 3 two_keys"

text \<open>
  A map of capacity 8 with the keys 7 and 15, both at home in slot 7: key 7 sits in slot 7
  and key 15 wraps round to slot 0. Then its clone by the loop of \<^verbatim>\<open>clone\<close>.
\<close>

definition wrapped_keys :: "(nat, nat) map_rec option" where
  "wrapped_keys =
     then_insert example_hash zero_alloc 15 2
       (then_insert example_hash zero_alloc 7 1 (Some (Map_construct zero_alloc 8)))"

definition wrapped_clone :: "(nat, nat) map_rec option" where
  "wrapped_clone = map_option (Map_clone example_hash zero_alloc False) wrapped_keys"

text \<open>
  A buffer of 8 slots with the keys 0 and 8 (at home in slot 0) and 2 (at home in slot 2),
  as three inserts into a map of capacity 8 leave it.
\<close>

definition example_table :: "(nat, nat) slot list" where
  "example_table =
     [Slot_make example_hash 0 1, Slot_make example_hash 8 3, Slot_make example_hash 2 5]
       @ replicate 5 Slot_default"

text \<open>
  An allocator whose memory is not zeroed: every cell of a fresh buffer reads as a slot
  with the tag of key 7 and the pair \<open>(7, 99)\<close>.
\<close>

definition stale_alloc :: "nat \<Rightarrow> nat \<Rightarrow> (nat, nat) slot" where
  "stale_alloc n i = Slot_make example_hash 7 99"

text \<open>
  A default map after \<^verbatim>\<open>reserve(1)\<close> and one insert, and after two more inserts of new
  keys.
\<close>

definition tiny_map :: "(nat, nat) map_rec option" where
  "tiny_map =
     then_insert example_hash zero_alloc 0 1 (Map_reserve zero_alloc 1 Map_default)"

text \<open>
  The buffer of \<open>tiny_map\<close> after one more insert (key 1), which fills its second and last
  slot, and the slot of a third key. All three keys are at home in slot 0 of 2.
\<close>

definition full_table :: "(nat, nat) slot list" where
  "full_table = [Slot_make example_hash 0 1, Slot_make example_hash 1 1]"

definition third_slot :: "(nat, nat) slot" where
  "third_slot = Slot_make example_hash 2 1"

text \<open>
  The variables of the loop of \<^verbatim>\<open>insert_slot\<close> round by round, when \<open>third_slot\<close> is
  inserted into \<open>full_table\<close>: after the seventh state the fourth comes again.
\<close>

definition lap :: "(nat, nat) ins_state list" where
  "lap =
     (let A = Slot_make example_hash 0 1;
          B = Slot_make example_hash 1 1;
          C = third_slot
      in [([A, B], 0, 0, C, None), ([A, B], 1, 1, C, None), ([A, B], 0, 2, C, None),
          ([C, B], 1, 1, A, Some 0), ([C, B], 0, 2, A, Some 0),
          ([A, B], 1, 1, C, Some 0), ([A, B], 0, 2, C, Some 0)])"

text \<open>A round from \<open>st\<close> reads inside the buffer and goes on with a state of \<open>lap\<close>.\<close>

definition goes_on :: "(nat, nat) ins_state \<Rightarrow> bool" where
  "goes_on st =
     (fst (snd st) < length (fst st) \<and>
      (case insert_slot_step 63 2 st of Inl st' \<Rightarrow> st' \<in> set lap | Inr r \<Rightarrow> False))"

text \<open>
  The scenario of the spec for the heap: push 5, 3, 8, 1, 4, then pop twice. The
  allocator of the runs fills fresh cells with 0.
\<close>

definition five_pushes :: "nat heap_op list" where
  "five_pushes = [Push 5, Push 3, Push 8, Push 1, Push 4]"

definition nat_alloc :: "nat \<Rightarrow> nat \<Rightarrow> nat" where
  "nat_alloc n i = 0"

text \<open>
  A map and a heap with elements, as the inserts into \<open>example_table\<close> and the five pushes
  of the spec's scenario leave them.
\<close>

definition example_map :: "(nat, nat) map_rec" where
  "example_map = \<lparr>Map_data = example_table, Map_capacity = 8, Map_length = 3,
                   Map_usable = 6, Map_shift = 61\<rparr>"

definition example_heap :: "nat heap_rec" where
  "example_heap = \<lparr>Heap_data = [1, 3, 8, 5, 4, 0, 0, 0], Heap_length = 5, Heap_capacity = 8\<rparr>"

text \<open>
  A run from the default map: two inserts, a \<^verbatim>\<open>grow\<close>, a third insert, an erase, a second
  \<^verbatim>\<open>grow\<close>, and an insert that overwrites the value of key 8.
\<close>

definition example_ops :: "(nat, nat) map_op list" where
  "example_ops = [Do_insert 0 1, Do_insert 8 3, Do_grow, Do_insert 2 5, Do_try_erase 0, Do_grow,
                  Do_insert 8 4]"

text \<open>
  A map of four slots with one key and a heap with one element, the destinations of the
  moves below.
\<close>

definition small_map :: "(nat, nat) map_rec" where
  "small_map = \<lparr>Map_data = [Slot_default, Slot_default, Slot_make example_hash 5 9, Slot_default],
                 Map_capacity = 4, Map_length = 1, Map_usable = 3, Map_shift = 62\<rparr>"

definition small_heap :: "nat heap_rec" where
  "small_heap = \<lparr>Heap_data = [7, 0], Heap_length = 1, Heap_capacity = 2\<rparr>"

definition two_maps :: "(nat, nat) map_rec store" where
  "two_maps a = (if a = 0 then small_map else if a = 1 then example_map else Map_default)"

definition two_heaps :: "nat heap_rec store" where
  "two_heaps a = (if a = 0 then small_heap else if a = 1 then example_heap else Heap_default)"

text \<open>
  An allocator whose memory is zeroed but for cell 2 of every buffer, which reads as a slot
  with the tag of key 0 and the pair \<open>(0, 77)\<close>.
\<close>

definition one_stale :: "nat \<Rightarrow> nat \<Rightarrow> (nat, nat) slot" where
  "one_stale n i = (if i = 2 then Slot_make example_hash 0 77 else Slot_default)"

section \<open>Properties of the map\<close>

subsection \<open>Inserting a key twice\<close>

lemma reinsert_length: "reinsert ss m = Some m' \<Longrightarrow> Map_length m' = Map_length m"
proof (induction ss arbitrary: m)
  case Nil
  then show ?case by simp
next
  case (Cons s ss)
  show ?case
  proof (cases "hash s \<noteq> EMPTY_SLOT")
    case True
    with Cons.prems obtain m1 p where
      a: "Map_insert_slot s m = Some (m1, p)" and b: "reinsert ss m1 = Some m'"
      by (auto split: option.splits)
    from a have "Map_length m1 = Map_length m"
      by (auto simp: Map_insert_slot_def split: option.splits)
    with Cons.IH [OF b] show ?thesis by simp
  next
    case False
    with Cons show ?thesis by simp
  qed
qed

lemma Map_grow_length: "Map_grow alloc m = Some m' \<Longrightarrow> Map_length m' = Map_length m"
  by (auto simp: Map_grow_def Map_reserve_def Let_def dest!: reinsert_length split: if_splits)

text \<open>Every insert that returns has added one to \<^verbatim>\<open>length_\<close>, whatever the key.\<close>

lemma Map_insert_length:
  "Map_insert hsh alloc key val m = Some (m', p) \<Longrightarrow> Map_length m' = Map_length m + 1"
  by (auto simp: Map_insert_def Map_insert_slot_def dest!: Map_grow_length
           split: option.splits if_splits)

text \<open>
  C1. The claim: inserting a key that is already in the map overwrites its value and
  does not increment the length, so the spec's scenario ends with length 2. In the source
  \<^verbatim>\<open>insert\<close> runs \<^verbatim>\<open>length_ += 1\<close> after every \<^verbatim>\<open>insert_slot\<close>: the scenario ends with
  the value 3 under \<open>''a''\<close>, two occupied slots, and length 3.
\<close>

theorem Map_insert_existing_key_counts_twice:
  "map_option Map_length spec_scenario = Some 3 \<and>
   map_option (\<lambda>m. length (filter (\<lambda>s. hash s \<noteq> EMPTY_SLOT) (Map_data m))) spec_scenario = Some 2 \<and>
   Option.bind spec_scenario (Map_try_get string_hash ''a'') = Some (Some 3)"
  by code_simp

subsection \<open>Cloning\<close>

text \<open>
  C2. The claim: a clone holds every entry of the original. The loop of \<^verbatim>\<open>clone\<close> runs
  over the indices below \<^verbatim>\<open>length_\<close>, not below \<^verbatim>\<open>capacity_\<close>: of the two keys in slots
  1 and 2 it clones slots 0 and 1, and the clone has lost \<open>''b''\<close>. The \<^verbatim>\<open>memcpy\<close> branch
  copies all slots.
\<close>

theorem Map_clone_loop_loses_entry:
  "Option.bind two_keys (Map_try_get string_hash ''b'') = Some (Some 2) \<and>
   Option.bind (map_option (Map_clone string_hash zero_alloc False) two_keys)
     (Map_try_get string_hash ''b'') = Some None \<and>
   Option.bind (map_option (Map_clone string_hash zero_alloc True) two_keys)
     (Map_try_get string_hash ''b'') = Some (Some 2)"
  by code_simp

subsection \<open>Erasing and looking up\<close>

text \<open>
  C3. The claim: \<^verbatim>\<open>try_erase\<close> finds the slot exactly as the lookup does and takes the
  key as absent at an empty slot. The loop of \<^verbatim>\<open>try_erase\<close> has no test for an empty
  slot. In the cloned map key 15 sits in slot 0 and its home slot 7 is empty: the lookup
  stops at slot 7 and reports the key absent, \<^verbatim>\<open>try_erase\<close> walks on to slot 0, finds
  the key, removes it and returns true.
\<close>

theorem Map_try_erase_walks_past_empty_slot:
  "Option.bind wrapped_clone (Map_try_get example_hash 15) = Some None \<and>
   map_option fst (Option.bind wrapped_clone (Map_try_erase example_hash 15)) = Some True \<and>
   map_option (\<lambda>m. try_get_loop 61 8 (Map_data m) (hash_key example_hash 15) 15 7 0)
     wrapped_clone = Some (Some None) \<and>
   map_option (\<lambda>m. try_erase_loop 61 8 (Map_data m) (hash_key example_hash 15) 15 7 0)
     wrapped_clone = Some (Some (Some 0))"
  by code_simp

subsection \<open>The running distance of an insert\<close>

lemma next_idx_displacement:
  "idx < cap \<Longrightarrow> k < cap \<Longrightarrow> displacement cap idx k + 1 < cap \<Longrightarrow>
   displacement cap (next_idx cap idx) k = displacement cap idx k + 1"
  by (auto simp: displacement_def next_idx_def)

lemma example_table_reached:
  "then_insert example_hash zero_alloc 2 5
     (then_insert example_hash zero_alloc 8 3
       (then_insert example_hash zero_alloc 0 1 (Some (Map_construct zero_alloc 8))))
   = Some \<lparr>Map_data = example_table, Map_capacity = 8, Map_length = 3,
            Map_usable = 6, Map_shift = 61\<rparr>"
  by code_simp

text \<open>
  C5, as the source has it. When a round of \<^verbatim>\<open>insert_slot\<close> finds an incumbent whose
  displacement is below \<open>dist\<close>, it puts the carried slot there, carries the incumbent on,
  and sets \<open>dist\<close> to the incumbent's displacement (\<^verbatim>\<open>dist = hashdist\<close>) before the
  increment. So in the next round \<open>dist\<close> is again the displacement the carried slot would
  have in the slot being probed, and it is not above the old \<open>dist\<close>.
\<close>

theorem insert_slot_swap_resets_dist:
  assumes "idx < cap" and "dist < cap"
    and "hash (d ! idx) \<noteq> EMPTY_SLOT"
    and "\<not> (hash (d ! idx) = hash s \<and> slot_key (d ! idx) = slot_key s)"
    and "ideal sh (hash (d ! idx)) < cap"
    and "displacement cap idx (ideal sh (hash (d ! idx))) < dist"
  shows "\<exists>idx' dist' s'.
           insert_slot_step sh cap (d, idx, dist, s, placement)
             = Inl (d[idx := s], idx', dist', s',
                    Some (case placement of Some p \<Rightarrow> p | None \<Rightarrow> idx)) \<and>
           idx' = next_idx cap idx \<and> s' = d ! idx \<and>
           dist' = displacement cap idx (ideal sh (hash (d ! idx))) + 1 \<and>
           dist' = displacement cap idx' (ideal sh (hash s')) \<and>
           dist' \<le> dist"
  using assms by (simp add: insert_slot_step_def Let_def next_idx_displacement)

text \<open>
  The theorem at the fourth insert into \<open>example_table\<close>: key 16 (at home in slot 0) has
  come to slot 2 with \<open>dist = 2\<close>, where key 2 sits at home. Key 2 is carried on to slot 3
  with \<open>dist = 1\<close>.
\<close>

theorem insert_slot_swap_resets_dist_witness:
  "displacement 8 2 (ideal 61 (hash (example_table ! 2))) < 2 \<and>
   (\<exists>idx' dist' s'.
     insert_slot_step 61 8 (example_table, 2, 2, Slot_make example_hash 16 7, None)
       = Inl (example_table[2 := Slot_make example_hash 16 7], idx', dist', s', Some 2) \<and>
     idx' = 3 \<and> s' = Slot_make example_hash 2 5 \<and> dist' = 1)"
proof -
  have a: "(2::nat) < 8" by simp
  have c: "hash (example_table ! 2) \<noteq> EMPTY_SLOT" by code_simp
  have e: "\<not> (hash (example_table ! 2) = hash (Slot_make example_hash 16 (7::nat))
             \<and> slot_key (example_table ! 2) = slot_key (Slot_make example_hash 16 (7::nat)))"
    by code_simp
  have f: "ideal 61 (hash (example_table ! 2)) < 8" by code_simp
  have g: "displacement 8 2 (ideal 61 (hash (example_table ! 2))) < 2" by code_simp
  have i: "example_table ! 2 = Slot_make example_hash 2 5" by code_simp
  have j: "next_idx 8 2 = 3" by code_simp
  have k: "displacement 8 2 (ideal 61 (hash (Slot_make example_hash 2 (5::nat)))) = 0"
    by code_simp
  from insert_slot_swap_resets_dist [OF a a c e f g, of None]
  show ?thesis by (simp add: i j k)
qed

text \<open>
  C5, as the claim states it: after the swap the scan goes on with the same running
  \<open>dist\<close>, so the round above would go on with \<open>dist = 2 + 1\<close>. It goes on with 1.
\<close>

theorem insert_slot_keeps_dist_counterexample:
  "(case insert_slot_step 61 8 (example_table, 2, 2, Slot_make example_hash 16 7, None) of
      Inl (d', idx', dist', s', placement') \<Rightarrow>
        s' = example_table ! 2 \<and> d' ! 2 = Slot_make example_hash 16 7 \<and>
        dist' = 1 \<and> dist' \<noteq> 2 + 1
    | Inr r \<Rightarrow> False)"
  by code_simp

subsection \<open>A fresh map\<close>

lemma bit_width_gt: "n < 2 ^ bit_width n"
proof (induction n rule: bit_width.induct)
  case (1 n)
  show ?case
  proof (cases "n = 0")
    case True
    then show ?thesis by (simp add: bit_width.simps)
  next
    case False
    with 1 have "n div 2 < 2 ^ bit_width (n div 2)" by simp
    then have "n < 2 * 2 ^ bit_width (n div 2)" by linarith
    with False show ?thesis by (subst bit_width.simps) simp
  qed
qed

lemma next_pow2_ge: "n \<le> next_pow2 n"
  using bit_width_gt [of "n - 1"] by (simp add: next_pow2_def)

lemma Map_try_get_fresh: "Map_try_get hsh key (Map_construct alloc n) = Some None"
  by (simp add: Map_try_get_def Map_construct_def Map_empty_def Let_def)

lemma zero_buffer: "raw_buffer zero_alloc n = replicate n Slot_default"
  by (simp add: list_eq_iff_nth_eq raw_buffer_def zero_alloc_def)

text \<open>
  C9, as the source has it. The constructor sets the capacity to the next power of two,
  \<^verbatim>\<open>shift_\<close> to \<^verbatim>\<open>ctlz(capacity_) + 1\<close>, \<^verbatim>\<open>usable_\<close> to \<^verbatim>\<open>(capacity_ / 4) * 3\<close> and the
  length to 0, and it takes the buffer as the allocator returns it: cell by cell what
  \<open>alloc\<close> gave, so all slots are empty when the allocator zero-fills. Whatever the buffer
  holds, every lookup on the fresh map reports the key absent, because \<^verbatim>\<open>try_get\<close>
  returns at once on length 0.
\<close>

theorem Map_construct_as_allocated:
  "Map_capacity (Map_construct alloc n) = next_pow2 n \<and>
   n \<le> next_pow2 n \<and> (\<exists>e. next_pow2 n = 2 ^ e) \<and>
   Map_shift (Map_construct alloc n) = ctlz (next_pow2 n) + 1 \<and>
   Map_usable (Map_construct alloc n) = (next_pow2 n div 4) * 3 \<and>
   Map_length (Map_construct alloc n) = 0 \<and>
   Map_data (Map_construct alloc n) = map (alloc (next_pow2 n)) [0..<next_pow2 n] \<and>
   Map_data (Map_construct zero_alloc n) = replicate (next_pow2 n) Slot_default \<and>
   Map_try_get hsh key (Map_construct alloc n) = Some None"
proof -
  have "\<exists>e. next_pow2 n = 2 ^ e" by (auto simp: next_pow2_def)
  moreover have "Map_data (Map_construct zero_alloc n) = replicate (next_pow2 n) Slot_default"
    by (simp add: Map_construct_def Let_def zero_buffer)
  moreover have "Map_data (Map_construct alloc n) = map (alloc (next_pow2 n)) [0..<next_pow2 n]"
    by (simp add: Map_construct_def Let_def raw_buffer_def)
  ultimately show ?thesis
    using next_pow2_ge [of n] Map_try_get_fresh [of hsh key alloc n]
    by (simp add: Map_construct_def Let_def)
qed

text \<open>
  C9, as the claim states it: all slots of the fresh map are empty whatever the allocator
  returned, and \<^verbatim>\<open>usable_\<close> is \<^verbatim>\<open>capacity * 3 / 4\<close>. On memory that is not zeroed slot 0
  of a fresh map of capacity 8 is not empty, and after one insert (of key 0) the map returns
  99 for key 7, which nobody inserted. For capacity 2, \<^verbatim>\<open>usable_\<close> is 0, not 1.
\<close>

theorem Map_construct_stale_memory_counterexample:
  "hash (Map_data (Map_construct stale_alloc 8) ! 0) \<noteq> EMPTY_SLOT \<and>
   Option.bind (then_insert example_hash stale_alloc 0 1 (Some (Map_construct stale_alloc 8)))
     (Map_try_get example_hash 7) = Some (Some 99) \<and>
   Map_usable (Map_construct stale_alloc 2) = 0 \<and> (2 * 3) div 4 = (1::nat)"
  by code_simp

subsection \<open>Length, usable slots and termination\<close>

lemma lap_all: "list_all goes_on lap"
  by code_simp

lemma lap_step: "st \<in> set lap \<Longrightarrow> goes_on st"
  using lap_all by (simp add: list_all_iff)

text \<open>
  The loop of \<^verbatim>\<open>insert_slot\<close> does not return from a state of \<open>lap\<close>: by the induction
  rule of the partial function, a returning call would rest on a returning call from the
  next state of \<open>lap\<close>.
\<close>

lemma lap_never_returns:
  assumes "insert_slot_loop sh cap st = Some r"
  shows "\<not> (sh = 63 \<and> cap = 2 \<and> st \<in> set lap)"
proof (rule insert_slot_loop.raw_induct [OF _ assms])
  fix f sh cap st r
  assume ih: "\<And>sh cap st r. f sh cap st = Some r \<Longrightarrow> \<not> (sh = 63 \<and> cap = 2 \<and> st \<in> set lap)"
    and body: "(case st of (d, idx, dist, s, placement) \<Rightarrow>
        if idx < length d then
          (case insert_slot_step sh cap st of
             Inl st' \<Rightarrow> f sh cap st'
           | Inr r \<Rightarrow> Some r)
        else None) = Some (r :: (nat, nat) slot list \<times> nat)"
  show "\<not> (sh = 63 \<and> cap = 2 \<and> st \<in> set lap)"
  proof
    assume asm: "sh = 63 \<and> cap = 2 \<and> st \<in> set lap"
    then have "goes_on st" by (simp add: lap_step)
    with asm obtain st' where a: "st' \<in> set lap" and b: "insert_slot_step sh cap st = Inl st'"
      and c: "fst (snd st) < length (fst st)"
      by (auto simp: goes_on_def split: sum.splits)
    obtain d idx dist s pl where st: "st = (d, idx, dist, s, pl)" by (cases st)
    from body b c have "f sh cap st' = Some r" by (simp add: st)
    with ih a asm show False by blast
  qed
qed

lemma start_in_lap: "(full_table, 0, 0, third_slot, None) \<in> set lap"
  by code_simp

lemma third_slot_loop: "insert_slot_loop 63 2 (full_table, 0, 0, third_slot, None) = None"
proof (cases "insert_slot_loop 63 2 (full_table, 0, 0, third_slot, None)")
  case None
  then show ?thesis .
next
  case (Some r)
  from lap_never_returns [OF this] start_in_lap show ?thesis by simp
qed

lemma full_table_reached:
  "then_insert example_hash zero_alloc 1 1 tiny_map
   = Some \<lparr>Map_data = full_table, Map_capacity = 2, Map_length = 2,
            Map_usable = 0, Map_shift = 63\<rparr>"
  by code_simp

lemma third_slot_home: "ideal 63 (hash third_slot) = 0"
  by code_simp

lemma third_slot_no_return:
  "Map_insert_slot third_slot
     \<lparr>Map_data = full_table, Map_capacity = 2, Map_length = 2, Map_usable = 0, Map_shift = 63\<rparr>
   = None"
  by (simp add: Map_insert_slot_def third_slot_home third_slot_loop)

text \<open>
  C10. The claim: after every operation \<^verbatim>\<open>length_ <= usable_\<close>, so a table always has
  an empty slot and the probe loops terminate. A default map after \<^verbatim>\<open>reserve(1)\<close> has
  capacity 1 and 0 usable slots; the first insert grows it to capacity 2, where
  \<^verbatim>\<open>(2 / 4) * 3\<close> is still 0 usable slots, and ends with length 1. From then on
  \<^verbatim>\<open>full()\<close>, the test \<^verbatim>\<open>length_ == usable_\<close>, is never true again: the second insert
  fills the table, and the third insert of a new key never returns from \<^verbatim>\<open>insert_slot\<close>.
\<close>

theorem Map_length_exceeds_usable:
  "map_option (\<lambda>m. (Map_capacity m, Map_usable m, Map_length m)) tiny_map = Some (2, 0, 1) \<and>
   map_option (\<lambda>m. (Map_capacity m, Map_usable m, Map_length m))
     (then_insert example_hash zero_alloc 1 1 tiny_map) = Some (2, 0, 2) \<and>
   then_insert example_hash zero_alloc 2 1 (then_insert example_hash zero_alloc 1 1 tiny_map)
     = None"
proof -
  have "then_insert example_hash zero_alloc 2 1
          (then_insert example_hash zero_alloc 1 1 tiny_map) = None"
    unfolding full_table_reached using third_slot_no_return
    by (simp add: then_insert_def Map_insert_def Map_full_def third_slot_def)
  moreover have
    "map_option (\<lambda>m. (Map_capacity m, Map_usable m, Map_length m)) tiny_map = Some (2, 0, 1)"
    by code_simp
  moreover have
    "map_option (\<lambda>m. (Map_capacity m, Map_usable m, Map_length m))
       (then_insert example_hash zero_alloc 1 1 tiny_map) = Some (2, 0, 2)"
    by code_simp
  ultimately show ?thesis by blast
qed

section \<open>The Robin Hood table\<close>

subsection \<open>Arithmetic of the cyclic probe sequence\<close>

lemma displacement_lt: "i < n \<Longrightarrow> h < n \<Longrightarrow> displacement n i h < n"
  by (auto simp: displacement_def)

lemma displacement_mod: "i < n \<Longrightarrow> h < n \<Longrightarrow> displacement n i h = (i + n - h) mod n"
  by (auto simp: displacement_def le_mod_geq)

lemma home_plus_displacement: "i < n \<Longrightarrow> h < n \<Longrightarrow> (h + displacement n i h) mod n = i"
  by (auto simp: displacement_def le_mod_geq)

lemma displacement_home_plus:
  assumes "h < n" "j < n"
  shows "displacement n ((h + j) mod n) h = j"
proof (cases "h + j < n")
  case True
  then show ?thesis by (simp add: displacement_def)
next
  case False
  then have "(h + j) mod n = h + j - n" using assms by (simp add: le_mod_geq)
  then show ?thesis using assms False by (simp add: displacement_def)
qed

lemma next_idx_mod: "0 < n \<Longrightarrow> next_idx n (x mod n) = (x + 1) mod n"
  by (auto simp: next_idx_def mod_Suc)

lemma prev_idx_mod: "0 < n \<Longrightarrow> prev_idx n ((x + 1) mod n) = x mod n"
  by (auto simp: prev_idx_def mod_Suc)

lemma next_idx_lt: "i < n \<Longrightarrow> next_idx n i < n"
  by (auto simp: next_idx_def)

lemma prev_idx_lt: "i < n \<Longrightarrow> prev_idx n i < n"
  by (auto simp: prev_idx_def)

lemma prev_next_idx: "i < n \<Longrightarrow> prev_idx n (next_idx n i) = i"
  by (auto simp: prev_idx_def next_idx_def)

lemma next_prev_idx: "i < n \<Longrightarrow> next_idx n (prev_idx n i) = i"
  by (auto simp: prev_idx_def next_idx_def)

lemma displacement_prev:
  "i < n \<Longrightarrow> h < n \<Longrightarrow> 0 < displacement n i h \<Longrightarrow>
   displacement n (prev_idx n i) h = displacement n i h - 1"
  by (auto simp: displacement_def prev_idx_def)

lemma displacement_next:
  "i < n \<Longrightarrow> h < n \<Longrightarrow> displacement n i h + 1 < n \<Longrightarrow>
   displacement n (next_idx n i) h = displacement n i h + 1"
  by (auto simp: displacement_def next_idx_def)

lemma displacement_zero_iff: "i < n \<Longrightarrow> h < n \<Longrightarrow> displacement n i h = 0 \<longleftrightarrow> i = h"
  by (auto simp: displacement_def)

subsection \<open>The invariant, pointwise\<close>

lemma robin_hoodD:
  assumes "robin_hood sh d" "i < length d" "occupied (d ! i)"
  shows "ideal sh (hash (d ! i)) < length d"
    and "0 < slot_disp sh (length d) i (d ! i) \<Longrightarrow> occupied (d ! prev_idx (length d) i)"
    and "0 < slot_disp sh (length d) i (d ! i) \<Longrightarrow>
         slot_disp sh (length d) i (d ! i)
           \<le> slot_disp sh (length d) (prev_idx (length d) i) (d ! prev_idx (length d) i) + 1"
  using assms by (auto simp: robin_hood_def)

lemma robin_hoodI:
  assumes "\<And>i. i < length d \<Longrightarrow> occupied (d ! i) \<Longrightarrow> ideal sh (hash (d ! i)) < length d"
    and "\<And>i. i < length d \<Longrightarrow> occupied (d ! i) \<Longrightarrow> 0 < slot_disp sh (length d) i (d ! i) \<Longrightarrow>
           occupied (d ! prev_idx (length d) i) \<and>
           slot_disp sh (length d) i (d ! i)
             \<le> slot_disp sh (length d) (prev_idx (length d) i) (d ! prev_idx (length d) i) + 1"
  shows "robin_hood sh d"
  using assms by (auto simp: robin_hood_def)

text \<open>From the home of an occupied slot up to the slot, every slot is occupied and at
  least as far from its own home as the probe is from this one.\<close>

lemma robin_hood_run:
  assumes rh: "robin_hood sh d" and p: "p < length d" "occupied (d ! p)"
    and j: "j \<le> slot_disp sh (length d) p (d ! p)"
  shows "occupied (d ! ((ideal sh (hash (d ! p)) + j) mod length d)) \<and>
         j \<le> slot_disp sh (length d) ((ideal sh (hash (d ! p)) + j) mod length d)
               (d ! ((ideal sh (hash (d ! p)) + j) mod length d))"
proof -
  let ?n = "length d"
  let ?h = "ideal sh (hash (d ! p))"
  let ?dp = "slot_disp sh ?n p (d ! p)"
  have n: "0 < ?n" using p by auto
  have h: "?h < ?n" using robin_hoodD(1) [OF rh p] .
  have "k \<le> ?dp \<Longrightarrow> occupied (d ! ((?h + (?dp - k)) mod ?n)) \<and>
         ?dp - k \<le> slot_disp sh ?n ((?h + (?dp - k)) mod ?n) (d ! ((?h + (?dp - k)) mod ?n))" for k
  proof (induction k)
    case 0
    have "(?h + ?dp) mod ?n = p"
      using home_plus_displacement [OF p(1) h] by (simp add: slot_disp_def)
    then show ?case using p by simp
  next
    case (Suc k)
    let ?q = "(?h + (?dp - k)) mod ?n"
    from Suc have ih: "occupied (d ! ?q)" "?dp - k \<le> slot_disp sh ?n ?q (d ! ?q)" by simp_all
    have q: "?q < ?n" using n by simp
    have pos: "0 < slot_disp sh ?n ?q (d ! ?q)" using ih(2) Suc.prems by linarith
    have pq: "prev_idx ?n ?q = (?h + (?dp - Suc k)) mod ?n"
    proof -
      have "?dp - k = (?dp - Suc k) + 1" using Suc.prems by linarith
      then have "?q = ((?h + (?dp - Suc k)) + 1) mod ?n" by (simp add: add.assoc)
      then show ?thesis using prev_idx_mod [OF n, of "?h + (?dp - Suc k)"] by simp
    qed
    define r where "r = (?h + (?dp - Suc k)) mod ?n"
    define a where "a = slot_disp sh ?n ?q (d ! ?q)"
    define b where "b = slot_disp sh ?n r (d ! r)"
    have "occupied (d ! r)" and "a \<le> b + 1"
      using robin_hoodD(2,3) [OF rh q ih(1) pos] by (simp_all add: pq r_def a_def b_def)
    moreover have "?dp - k \<le> a" using ih(2) by (simp add: a_def)
    ultimately have "occupied (d ! r) \<and> ?dp - Suc k \<le> b" using Suc.prems by linarith
    then show ?case by (simp add: r_def b_def)
  qed
  from this [of "?dp - j"] j show ?thesis by simp
qed

subsection \<open>The loop of \<^verbatim>\<open>try_get\<close>\<close>

lemma try_get_loop_empty:
  "idx < length d \<Longrightarrow> hash (d ! idx) = EMPTY_SLOT \<Longrightarrow>
   try_get_loop sh cap d h key idx dist = Some None"
  by (subst try_get_loop.simps) simp

lemma try_get_loop_match:
  "idx < length d \<Longrightarrow> hash (d ! idx) \<noteq> EMPTY_SLOT \<Longrightarrow>
   hash (d ! idx) = h \<and> slot_key (d ! idx) = Some key \<Longrightarrow>
   try_get_loop sh cap d h key idx dist = Some (slot_val (d ! idx))"
  by (subst try_get_loop.simps) simp

lemma try_get_loop_exit:
  "idx < length d \<Longrightarrow> hash (d ! idx) \<noteq> EMPTY_SLOT \<Longrightarrow>
   \<not> (hash (d ! idx) = h \<and> slot_key (d ! idx) = Some key) \<Longrightarrow>
   slot_disp sh cap idx (d ! idx) < dist \<Longrightarrow>
   try_get_loop sh cap d h key idx dist = Some None"
  by (subst try_get_loop.simps) (auto simp: Let_def slot_disp_def)

lemma try_get_loop_next:
  "idx < length d \<Longrightarrow> hash (d ! idx) \<noteq> EMPTY_SLOT \<Longrightarrow>
   \<not> (hash (d ! idx) = h \<and> slot_key (d ! idx) = Some key) \<Longrightarrow>
   \<not> slot_disp sh cap idx (d ! idx) < dist \<Longrightarrow>
   try_get_loop sh cap d h key idx dist
     = try_get_loop sh cap d h key (next_idx cap idx) (dist + 1)"
  by (subst try_get_loop.simps) (auto simp: Let_def slot_disp_def)

lemma hash_key_nonzero: "hash_key hsh k \<noteq> EMPTY_SLOT"
  by (simp add: hash_key_def EMPTY_SLOT_def or_eq_0_iff)

lemma slot_ok_key:
  "slot_ok hsh s \<Longrightarrow> slot_key s = Some key \<Longrightarrow> hash s = hash_key hsh key"
  by (auto simp: slot_ok_def slot_key_def split: option.splits)

lemma slot_key_data: "slot_key s = Some key \<longleftrightarrow> (\<exists>v. data s = Some (key, v))"
  by (cases "data s") (auto simp: slot_key_def)

lemma slots_okD: "slots_ok hsh d \<Longrightarrow> i < length d \<Longrightarrow> occupied (d ! i) \<Longrightarrow> slot_ok hsh (d ! i)"
  by (simp add: slots_ok_def)

lemma keys_distinctD:
  "keys_distinct d \<Longrightarrow> i < length d \<Longrightarrow> j < length d \<Longrightarrow> occupied (d ! i) \<Longrightarrow>
   occupied (d ! j) \<Longrightarrow> slot_key (d ! i) = slot_key (d ! j) \<Longrightarrow> i = j"
  by (simp add: keys_distinct_def)

text \<open>A key that is stored is not beyond the probe: the probe from its home reaches it.\<close>

lemma stored_not_missed:
  assumes tok: "table_ok hsh sh d"
    and st: "p < length d" "occupied (d ! p)" "slot_key (d ! p) = Some key"
    and seen: "\<forall>j<dist. \<not> (occupied (d ! ((ideal sh (hash_key hsh key) + j) mod length d)) \<and>
                 slot_key (d ! ((ideal sh (hash_key hsh key) + j) mod length d)) = Some key)"
  shows "occupied (d ! ((ideal sh (hash_key hsh key) + dist) mod length d)) \<and>
         dist \<le> slot_disp sh (length d) ((ideal sh (hash_key hsh key) + dist) mod length d)
                  (d ! ((ideal sh (hash_key hsh key) + dist) mod length d))"
proof -
  let ?n = "length d"
  let ?h = "ideal sh (hash_key hsh key)"
  let ?dp = "slot_disp sh ?n p (d ! p)"
  have rh: "robin_hood sh d" and so: "slots_ok hsh d" using tok by (simp_all add: table_ok_def)
  have hp: "hash (d ! p) = hash_key hsh key"
    using slot_ok_key [OF slots_okD [OF so st(1,2)] st(3)] .
  have home: "?h < ?n" using robin_hoodD(1) [OF rh st(1,2)] hp by simp
  have "dist \<le> ?dp"
  proof (rule ccontr)
    assume "\<not> dist \<le> ?dp"
    then have "?dp < dist" by simp
    moreover have "(?h + ?dp) mod ?n = p"
      using home_plus_displacement [OF st(1) home] hp by (simp add: slot_disp_def)
    ultimately show False using seen st by auto
  qed
  from robin_hood_run [OF rh st(1,2) this] show ?thesis by (simp add: hp)
qed

lemma try_get_loop_correct:
  assumes tok: "table_ok hsh sh d"
    and home: "ideal sh (hash_key hsh key) < length d"
  shows "dist \<le> length d \<Longrightarrow>
    \<forall>j<dist. \<not> (occupied (d ! ((ideal sh (hash_key hsh key) + j) mod length d)) \<and>
                 slot_key (d ! ((ideal sh (hash_key hsh key) + j) mod length d)) = Some key) \<Longrightarrow>
    \<exists>r. try_get_loop sh (length d) d (hash_key hsh key) key
           ((ideal sh (hash_key hsh key) + dist) mod length d) dist = Some r \<and>
        (\<forall>v. r = Some v \<longleftrightarrow> stored d key v)"
proof (induction "length d - dist" arbitrary: dist rule: less_induct)
  case less
  let ?n = "length d"
  let ?h = "hash_key hsh key"
  let ?hm = "ideal sh ?h"
  let ?idx = "(?hm + dist) mod ?n"
  let ?s = "d ! ?idx"
  have n: "0 < ?n" using home by auto
  have idx: "?idx < ?n" using n by simp
  have rh: "robin_hood sh d" and so: "slots_ok hsh d" and kd: "keys_distinct d"
    using tok by (simp_all add: table_ok_def)
  have absent: "\<not> stored d key v" if "\<not> (occupied ?s \<and> dist \<le> slot_disp sh ?n ?idx ?s)" for v
  proof
    assume "stored d key v"
    then obtain p where p: "p < ?n" "occupied (d ! p)" "data (d ! p) = Some (key, v)"
      by (auto simp: stored_def)
    then have "slot_key (d ! p) = Some key" by (simp add: slot_key_def)
    from stored_not_missed [OF tok p(1,2) this less.prems(2)] that show False by simp
  qed
  show ?case
  proof (cases "hash ?s = EMPTY_SLOT")
    case True
    then have "\<forall>v. \<not> stored d key v" using absent by (simp add: occupied_def)
    then show ?thesis using try_get_loop_empty [OF idx True] by simp
  next
    case occ: False
    then have occ': "occupied ?s" by (simp add: occupied_def)
    show ?thesis
    proof (cases "hash ?s = ?h \<and> slot_key ?s = Some key")
      case True
      then obtain v0 where v0: "data ?s = Some (key, v0)" by (auto simp: slot_key_data)
      have "stored d key v \<longleftrightarrow> v = v0" for v
      proof
        assume "stored d key v"
        then obtain p where p: "p < ?n" "occupied (d ! p)" "data (d ! p) = Some (key, v)"
          by (auto simp: stored_def)
        then have "slot_key (d ! p) = slot_key ?s" using v0 by (simp add: slot_key_def)
        from keys_distinctD [OF kd p(1) idx p(2) occ' this] p(3) v0 show "v = v0" by simp
      next
        assume "v = v0"
        then show "stored d key v" using idx occ' v0 by (auto simp: stored_def)
      qed
      then have "\<forall>v. slot_val ?s = Some v \<longleftrightarrow> stored d key v"
        using v0 by (auto simp: slot_val_def)
      then show ?thesis using try_get_loop_match [OF idx occ True] by simp
    next
      case nomatch: False
      have nokey: "slot_key ?s \<noteq> Some key"
        using nomatch slot_ok_key [OF slots_okD [OF so idx occ']] by auto
      show ?thesis
      proof (cases "slot_disp sh ?n ?idx ?s < dist")
        case True
        then have "\<forall>v. \<not> stored d key v" using absent by simp
        then show ?thesis using try_get_loop_exit [OF idx occ nomatch True] by simp
      next
        case False
        have "slot_disp sh ?n ?idx ?s < ?n"
          using displacement_lt [OF idx robin_hoodD(1) [OF rh idx occ']] by (simp add: slot_disp_def)
        then have d1: "dist + 1 \<le> ?n" using False by simp
        have seen: "\<forall>j<dist + 1. \<not> (occupied (d ! ((?hm + j) mod ?n)) \<and>
                 slot_key (d ! ((?hm + j) mod ?n)) = Some key)"
          using less.prems(2) nokey by (auto simp: less_Suc_eq)
        have "?n - (dist + 1) < ?n - dist" using d1 by simp
        from less.hyps [OF this d1 seen] obtain r where
          r: "try_get_loop sh ?n d ?h key ((?hm + (dist + 1)) mod ?n) (dist + 1) = Some r"
             "\<forall>v. r = Some v \<longleftrightarrow> stored d key v" by blast
        have "next_idx ?n ?idx = (?hm + (dist + 1)) mod ?n"
          using next_idx_mod [OF n, of "?hm + dist"] by (simp add: add.assoc)
        then have "try_get_loop sh ?n d ?h key ?idx dist = Some r"
          using r(1) try_get_loop_next [OF idx occ nomatch False] by simp
        then show ?thesis using r(2) by blast
      qed
    qed
  qed
qed

subsection \<open>The loop of insert_slot, branch by branch\<close>

lemma Slot_move_occupied: "occupied s \<Longrightarrow> Slot_move s = s"
  by (simp add: Slot_move_def occupied_def)

lemma insert_slot_loop_empty:
  "idx < length d \<Longrightarrow> hash (d ! idx) = EMPTY_SLOT \<Longrightarrow>
   insert_slot_loop sh cap (d, idx, dist, s, pl)
     = Some (d[idx := Slot_move s], (case pl of Some p \<Rightarrow> p | None \<Rightarrow> idx))"
  by (subst insert_slot_loop.simps) (simp add: insert_slot_step_def)

lemma insert_slot_loop_match:
  "idx < length d \<Longrightarrow> hash (d ! idx) \<noteq> EMPTY_SLOT \<Longrightarrow>
   hash (d ! idx) = hash s \<and> slot_key (d ! idx) = slot_key s \<Longrightarrow>
   insert_slot_loop sh cap (d, idx, dist, s, pl) = Some (d[idx := Slot_move s], idx)"
  by (subst insert_slot_loop.simps) (simp add: insert_slot_step_def)

lemma insert_slot_loop_swap:
  "idx < length d \<Longrightarrow> hash (d ! idx) \<noteq> EMPTY_SLOT \<Longrightarrow>
   \<not> (hash (d ! idx) = hash s \<and> slot_key (d ! idx) = slot_key s) \<Longrightarrow>
   slot_disp sh cap idx (d ! idx) < dist \<Longrightarrow>
   insert_slot_loop sh cap (d, idx, dist, s, pl)
     = insert_slot_loop sh cap
         (d[idx := s], next_idx cap idx, slot_disp sh cap idx (d ! idx) + 1, d ! idx,
          Some (case pl of Some p \<Rightarrow> p | None \<Rightarrow> idx))"
  by (subst insert_slot_loop.simps) (auto simp: insert_slot_step_def Let_def slot_disp_def)

lemma insert_slot_loop_next:
  "idx < length d \<Longrightarrow> hash (d ! idx) \<noteq> EMPTY_SLOT \<Longrightarrow>
   \<not> (hash (d ! idx) = hash s \<and> slot_key (d ! idx) = slot_key s) \<Longrightarrow>
   \<not> slot_disp sh cap idx (d ! idx) < dist \<Longrightarrow>
   insert_slot_loop sh cap (d, idx, dist, s, pl)
     = insert_slot_loop sh cap (d, next_idx cap idx, dist + 1, s, pl)"
  by (subst insert_slot_loop.simps) (auto simp: insert_slot_step_def Let_def slot_disp_def)

subsection \<open>Counting occupied slots\<close>

lemma length_filter_update:
  "i < length xs \<Longrightarrow>
   length (filter P (xs[i := x])) + (if P (xs ! i) then 1 else 0)
     = length (filter P xs) + (if P x then 1 else 0)"
proof (induction xs arbitrary: i)
  case Nil
  then show ?case by simp
next
  case (Cons a xs)
  then show ?case by (cases i) auto
qed

lemma occ_count_update:
  "i < length d \<Longrightarrow>
   occ_count (d[i := s]) + (if occupied (d ! i) then 1 else 0)
     = occ_count d + (if occupied s then 1 else 0)"
  unfolding occ_count_def by (rule length_filter_update)

lemma occ_count_le: "occ_count d \<le> length d"
  by (simp add: occ_count_def)

lemma empty_slot_exists:
  assumes "occ_count d < length d"
  shows "\<exists>e < length d. \<not> occupied (d ! e)"
proof (rule ccontr)
  assume "\<not> ?thesis"
  then have "\<forall>x \<in> set d. occupied x" by (auto simp: in_set_conv_nth)
  then have "filter occupied d = d" by (simp add: filter_id_conv)
  with assms show False by (simp add: occ_count_def)
qed

lemma occ_count_replicate: "occ_count (replicate n Slot_default) = 0"
  by (simp add: occ_count_def occupied_def Slot_default_def)

text \<open>The first empty slot on the way from a slot, when there is an empty slot.\<close>

lemma first_empty:
  assumes e: "e < length d" "\<not> occupied (d ! e)" and idx: "idx < length d"
  shows "\<exists>j < length d. \<not> occupied (d ! ((idx + j) mod length d)) \<and>
           (\<forall>j' < j. occupied (d ! ((idx + j') mod length d)))"
proof -
  let ?n = "length d"
  let ?P = "\<lambda>j. \<not> occupied (d ! ((idx + j) mod ?n))"
  have "(idx + displacement ?n e idx) mod ?n = e"
    using home_plus_displacement [OF e(1) idx] .
  then have P0: "?P (displacement ?n e idx)" using e(2) by simp
  define j where "j = (LEAST j. ?P j)"
  have "?P j" unfolding j_def using P0 by (rule LeastI)
  moreover have "j \<le> displacement ?n e idx" unfolding j_def using P0 by (rule Least_le)
  then have "j < ?n" using displacement_lt [OF e(1) idx] by simp
  moreover have "\<forall>j' < j. \<not> ?P j'" unfolding j_def using not_less_Least by blast
  ultimately show ?thesis by blast
qed

subsection \<open>Tables after an update\<close>

lemma robin_hood_same_hash:
  assumes "robin_hood sh d" "p < length d" "hash s = hash (d ! p)"
  shows "robin_hood sh (d[p := s])"
proof -
  have occ: "occupied ((d[p := s]) ! i) = occupied (d ! i)" if "i < length d" for i
    using that assms(3) by (cases "i = p") (simp_all add: occupied_def)
  have dsp: "slot_disp sh n i ((d[p := s]) ! i) = slot_disp sh n i (d ! i)"
    and hm: "ideal sh (hash ((d[p := s]) ! i)) = ideal sh (hash (d ! i))" if "i < length d" for i n
    using that assms(3) by (cases "i = p"; simp add: slot_disp_def)+
  show ?thesis
  proof (rule robin_hoodI)
    fix i assume i: "i < length (d[p := s])" "occupied ((d[p := s]) ! i)"
    then have i': "i < length d" "occupied (d ! i)" using occ by simp_all
    show "ideal sh (hash ((d[p := s]) ! i)) < length (d[p := s])"
      using robin_hoodD(1) [OF assms(1) i'] hm [OF i'(1)] by simp
    assume "0 < slot_disp sh (length (d[p := s])) i ((d[p := s]) ! i)"
    then have pos: "0 < slot_disp sh (length d) i (d ! i)" using dsp [OF i'(1)] by simp
    have pl: "prev_idx (length d) i < length d" using prev_idx_lt [OF i'(1)] .
    from robin_hoodD(2,3) [OF assms(1) i' pos]
    show "occupied ((d[p := s]) ! prev_idx (length (d[p := s])) i) \<and>
          slot_disp sh (length (d[p := s])) i ((d[p := s]) ! i)
            \<le> slot_disp sh (length (d[p := s])) (prev_idx (length (d[p := s])) i)
                 ((d[p := s]) ! prev_idx (length (d[p := s])) i) + 1"
      using occ [OF pl] dsp [OF pl] dsp [OF i'(1)] by simp
  qed
qed

subsection \<open>Inserting a key that is stored\<close>

lemma insert_present_loop:
  assumes tok: "table_ok hsh sh d"
    and s: "occupied s" "slot_ok hsh s" "slot_key s = Some key"
    and p: "p < length d" "occupied (d ! p)" "slot_key (d ! p) = Some key"
  shows "dist \<le> slot_disp sh (length d) p (d ! p) \<Longrightarrow>
    \<forall>j<dist. \<not> (occupied (d ! ((ideal sh (hash_key hsh key) + j) mod length d)) \<and>
                 slot_key (d ! ((ideal sh (hash_key hsh key) + j) mod length d)) = Some key) \<Longrightarrow>
    insert_slot_loop sh (length d)
      (d, (ideal sh (hash_key hsh key) + dist) mod length d, dist, s, pl) = Some (d[p := s], p)"
proof (induction "slot_disp sh (length d) p (d ! p) - dist" arbitrary: dist rule: less_induct)
  case less
  let ?n = "length d"
  let ?hm = "ideal sh (hash_key hsh key)"
  let ?idx = "(?hm + dist) mod ?n"
  let ?dp = "slot_disp sh ?n p (d ! p)"
  have rh: "robin_hood sh d" and so: "slots_ok hsh d" and kd: "keys_distinct d"
    using tok by (simp_all add: table_ok_def)
  have n: "0 < ?n" using p by auto
  have idx: "?idx < ?n" using n by simp
  have hs: "hash s = hash_key hsh key" using slot_ok_key [OF s(2,3)] .
  have hp: "hash (d ! p) = hash_key hsh key"
    using slot_ok_key [OF slots_okD [OF so p(1,2)] p(3)] .
  have home: "?hm < ?n" using robin_hoodD(1) [OF rh p(1,2)] hp by simp
  have at_p: "(?hm + ?dp) mod ?n = p"
    using home_plus_displacement [OF p(1) home] hp by (simp add: slot_disp_def)
  from stored_not_missed [OF tok p less.prems(2)]
  have occ: "occupied (d ! ?idx)" and far: "dist \<le> slot_disp sh ?n ?idx (d ! ?idx)" by simp_all
  have occ': "hash (d ! ?idx) \<noteq> EMPTY_SLOT" using occ by (simp add: occupied_def)
  show ?case
  proof (cases "hash (d ! ?idx) = hash s \<and> slot_key (d ! ?idx) = slot_key s")
    case True
    then have "slot_key (d ! ?idx) = slot_key (d ! p)" using s(3) p(3) by simp
    from keys_distinctD [OF kd idx p(1) occ p(2) this] have "?idx = p" .
    then show ?thesis
      using insert_slot_loop_match [OF idx occ' True, of sh ?n dist pl] Slot_move_occupied [OF s(1)]
      by simp
  next
    case False
    have ne: "?idx \<noteq> p" using False hs hp s(3) p(3) by auto
    then have "dist \<noteq> ?dp" using at_p by auto
    then have lt: "dist + 1 \<le> ?dp" using less.prems(1) by simp
    have nokey: "slot_key (d ! ?idx) \<noteq> Some key"
    proof
      assume "slot_key (d ! ?idx) = Some key"
      then have "slot_key (d ! ?idx) = slot_key (d ! p)" using p(3) by simp
      from keys_distinctD [OF kd idx p(1) occ p(2) this] ne show False by simp
    qed
    have seen: "\<forall>j<dist + 1. \<not> (occupied (d ! ((?hm + j) mod ?n)) \<and>
                 slot_key (d ! ((?hm + j) mod ?n)) = Some key)"
      using less.prems(2) nokey by (auto simp: less_Suc_eq)
    have "?dp - (dist + 1) < ?dp - dist" using lt by simp
    from less.hyps [OF this lt seen]
    have ih: "insert_slot_loop sh ?n (d, (?hm + (dist + 1)) mod ?n, dist + 1, s, pl)
              = Some (d[p := s], p)" .
    have nx: "next_idx ?n ?idx = (?hm + (dist + 1)) mod ?n"
      using next_idx_mod [OF n, of "?hm + dist"] by (simp add: add.assoc)
    have "\<not> slot_disp sh ?n ?idx (d ! ?idx) < dist" using far by simp
    from insert_slot_loop_next [OF idx occ' False this, of pl] ih nx
    show ?thesis by simp
  qed
qed

lemma stored_update_same_key:
  assumes kd: "keys_distinct d" and p: "p < length d" "occupied (d ! p)" "slot_key (d ! p) = Some key"
    and s: "occupied s" "data s = Some (key, val)"
  shows "stored (d[p := s]) k v \<longleftrightarrow> (if k = key then v = val else stored d k v)"
proof (cases "k = key")
  case True
  have "stored (d[p := s]) key v \<longleftrightarrow> v = val"
  proof
    assume "stored (d[p := s]) key v"
    then obtain i where i: "i < length d" "occupied ((d[p := s]) ! i)" "data ((d[p := s]) ! i) = Some (key, v)"
      by (auto simp: stored_def)
    show "v = val"
    proof (cases "i = p")
      case True
      then show ?thesis using i p(1) s by simp
    next
      case False
      then have "occupied (d ! i)" "data (d ! i) = Some (key, v)" using i by simp_all
      then have "occupied (d ! i)" "slot_key (d ! i) = slot_key (d ! p)"
        using p(3) by (auto simp: slot_key_def)
      from keys_distinctD [OF kd i(1) p(1) this(1) p(2) this(2)] False show ?thesis by simp
    qed
  next
    assume "v = val"
    then show "stored (d[p := s]) key v" using p(1) s by (auto simp: stored_def)
  qed
  then show ?thesis using True by simp
next
  case False
  have "stored (d[p := s]) k v \<longleftrightarrow> stored d k v"
  proof
    assume "stored (d[p := s]) k v"
    then obtain i where i: "i < length d" "occupied ((d[p := s]) ! i)" "data ((d[p := s]) ! i) = Some (k, v)"
      by (auto simp: stored_def)
    then have "i \<noteq> p" using s(2) False p(1) by auto
    then show "stored d k v" using i by (auto simp: stored_def)
  next
    assume "stored d k v"
    then obtain i where i: "i < length d" "occupied (d ! i)" "data (d ! i) = Some (k, v)"
      by (auto simp: stored_def)
    then have "i \<noteq> p" using p(3) False by (auto simp: slot_key_def)
    then show "stored (d[p := s]) k v" using i by (auto simp: stored_def)
  qed
  then show ?thesis using False by simp
qed

lemma table_ok_update_same_key:
  assumes tok: "table_ok hsh sh d"
    and p: "p < length d" "occupied (d ! p)" "slot_key (d ! p) = Some key"
    and s: "occupied s" "slot_ok hsh s" "slot_key s = Some key"
  shows "table_ok hsh sh (d[p := s])"
proof -
  have rh: "robin_hood sh d" and so: "slots_ok hsh d" and kd: "keys_distinct d"
    using tok by (simp_all add: table_ok_def)
  have "hash s = hash (d ! p)"
    using slot_ok_key [OF s(2,3)] slot_ok_key [OF slots_okD [OF so p(1,2)] p(3)] by simp
  then have "robin_hood sh (d[p := s])" using robin_hood_same_hash [OF rh p(1)] by simp
  moreover have "slots_ok hsh (d[p := s])"
    unfolding slots_ok_def
  proof (intro ballI impI)
    fix i assume "i \<in> {0..<length (d[p := s])}" "occupied ((d[p := s]) ! i)"
    then show "slot_ok hsh ((d[p := s]) ! i)"
      using slots_okD [OF so, of i] s(2) by (cases "i = p") simp_all
  qed
  moreover have "keys_distinct (d[p := s])"
    unfolding keys_distinct_def
  proof (intro ballI impI)
    fix i j assume ij: "i \<in> {0..<length (d[p := s])}" "j \<in> {0..<length (d[p := s])}"
      and h: "occupied ((d[p := s]) ! i) \<and> occupied ((d[p := s]) ! j) \<and>
              slot_key ((d[p := s]) ! i) = slot_key ((d[p := s]) ! j)"
    have a: "occupied ((d[p := s]) ! x) = occupied (d ! x)"
      "slot_key ((d[p := s]) ! x) = slot_key (d ! x)" if "x < length d" for x
      using that p s by (cases "x = p"; simp)+
    from ij h a have "occupied (d ! i)" "occupied (d ! j)" "slot_key (d ! i) = slot_key (d ! j)"
      by simp_all
    with keys_distinctD [OF kd] ij show "i = j" by simp
  qed
  ultimately show ?thesis by (simp add: table_ok_def)
qed

subsection \<open>Putting a slot into a table\<close>

lemma robin_hood_place:
  assumes rh: "robin_hood sh d" and idx: "idx < length d"
    and s: "occupied s" "ideal sh (hash s) < length d"
    and pred: "0 < slot_disp sh (length d) idx s \<longrightarrow>
               occupied (d ! prev_idx (length d) idx) \<and>
               slot_disp sh (length d) idx s
                 \<le> slot_disp sh (length d) (prev_idx (length d) idx) (d ! prev_idx (length d) idx) + 1"
    and succ: "occupied (d ! idx) \<longrightarrow>
               slot_disp sh (length d) idx (d ! idx) \<le> slot_disp sh (length d) idx s"
  shows "robin_hood sh (d[idx := s])"
proof (rule robin_hoodI)
  let ?n = "length d"
  let ?d' = "d[idx := s]"
  fix i assume i: "i < length ?d'" "occupied (?d' ! i)"
  then have il: "i < ?n" by simp
  show "ideal sh (hash (?d' ! i)) < length ?d'"
  proof (cases "i = idx")
    case True
    then show ?thesis using s idx by simp
  next
    case False
    then show ?thesis using robin_hoodD(1) [OF rh il] i by simp
  qed
  assume pos: "0 < slot_disp sh (length ?d') i (?d' ! i)"
  show "occupied (?d' ! prev_idx (length ?d') i) \<and>
        slot_disp sh (length ?d') i (?d' ! i)
          \<le> slot_disp sh (length ?d') (prev_idx (length ?d') i) (?d' ! prev_idx (length ?d') i) + 1"
  proof (cases "i = idx")
    case True
    show ?thesis
    proof (cases "prev_idx ?n idx = idx")
      case same: True
      then show ?thesis using True s idx by simp
    next
      case False
      then show ?thesis using True pred pos idx by simp
    qed
  next
    case ne: False
    then have occ: "occupied (d ! i)" and pos': "0 < slot_disp sh ?n i (d ! i)"
      using i pos by simp_all
    note r = robin_hoodD(2,3) [OF rh il occ pos']
    show ?thesis
    proof (cases "prev_idx ?n i = idx")
      case True
      then show ?thesis using r succ ne s idx by simp
    next
      case False
      then show ?thesis using r ne by simp
    qed
  qed
qed

lemma slots_ok_update:
  "slots_ok hsh d \<Longrightarrow> (occupied s \<longrightarrow> slot_ok hsh s) \<Longrightarrow> slots_ok hsh (d[idx := s])"
  unfolding slots_ok_def
proof (intro ballI impI)
  fix i
  assume a: "\<forall>i\<in>{0..<length d}. occupied (d ! i) \<longrightarrow> slot_ok hsh (d ! i)"
    "occupied s \<longrightarrow> slot_ok hsh s" "i \<in> {0..<length (d[idx := s])}" "occupied ((d[idx := s]) ! i)"
  then show "slot_ok hsh ((d[idx := s]) ! i)"
    by (cases "i = idx") simp_all
qed

lemma keys_distinct_update:
  assumes kd: "keys_distinct d"
    and new: "\<forall>i<length d. i \<noteq> idx \<longrightarrow> occupied (d ! i) \<longrightarrow> slot_key (d ! i) \<noteq> slot_key s"
  shows "keys_distinct (d[idx := s])"
  unfolding keys_distinct_def
proof (intro ballI impI)
  let ?d' = "d[idx := s]"
  fix i j assume ij: "i \<in> {0..<length ?d'}" "j \<in> {0..<length ?d'}"
    and h: "occupied (?d' ! i) \<and> occupied (?d' ! j) \<and> slot_key (?d' ! i) = slot_key (?d' ! j)"
  show "i = j"
  proof (cases "i = idx")
    case True
    show ?thesis
    proof (rule ccontr)
      assume "i \<noteq> j"
      then show False using True ij h new by auto
    qed
  next
    case False
    show ?thesis
    proof (cases "j = idx")
      case True
      then show ?thesis using False ij h new by auto
    next
      case nj: False
      then show ?thesis using False ij h keys_distinctD [OF kd, of i j] by simp
    qed
  qed
qed

lemma stored_split:
  "idx < length d \<Longrightarrow>
   stored d k v \<longleftrightarrow>
     (occupied (d ! idx) \<and> data (d ! idx) = Some (k, v)) \<or>
     (\<exists>i<length d. i \<noteq> idx \<and> occupied (d ! i) \<and> data (d ! i) = Some (k, v))"
  unfolding stored_def by blast

lemma stored_update:
  assumes "idx < length d"
  shows "stored (d[idx := s]) k v \<longleftrightarrow>
     (occupied s \<and> data s = Some (k, v)) \<or>
     (\<exists>i<length d. i \<noteq> idx \<and> occupied (d ! i) \<and> data (d ! i) = Some (k, v))"
proof -
  have "idx < length (d[idx := s])" using assms by simp
  from stored_split [OF this, of k v] assms show ?thesis
    by (auto simp: nth_list_update)
qed

subsection \<open>Inserting a key that is not stored\<close>

lemma insert_absent_loop:
  "\<lbrakk>n = length d; idx < n; robin_hood sh d; slots_ok hsh d; keys_distinct d;
    occupied s; slot_ok hsh s; ideal sh (hash s) < n;
    \<forall>i<n. occupied (d ! i) \<longrightarrow> slot_key (d ! i) \<noteq> slot_key s;
    dist = slot_disp sh n idx s;
    0 < dist \<longrightarrow> occupied (d ! prev_idx n idx) \<and>
                 dist \<le> slot_disp sh n (prev_idx n idx) (d ! prev_idx n idx) + 1;
    \<not> occupied (d ! ((idx + j) mod n));
    \<forall>j'<j. occupied (d ! ((idx + j') mod n));
    dist + j < n\<rbrakk>
   \<Longrightarrow> \<exists>d' p. insert_slot_loop sh n (d, idx, dist, s, pl) = Some (d', p) \<and>
          length d' = n \<and> robin_hood sh d' \<and> slots_ok hsh d' \<and> keys_distinct d' \<and>
          (\<forall>k v. stored d' k v \<longleftrightarrow> stored d k v \<or> data s = Some (k, v)) \<and>
          occ_count d' = occ_count d + 1"
proof (induction j arbitrary: d idx dist s pl)
  case 0
  let ?d' = "d[idx := s]"
  have idx: "idx < length d" using 0 by simp
  have emp: "\<not> occupied (d ! idx)" using 0(12) 0(2) by simp
  then have h0: "hash (d ! idx) = EMPTY_SLOT" by (simp add: occupied_def)
  have loop: "insert_slot_loop sh n (d, idx, dist, s, pl)
              = Some (?d', (case pl of Some p \<Rightarrow> p | None \<Rightarrow> idx))"
    using insert_slot_loop_empty [OF idx h0, of sh n dist s pl] Slot_move_occupied [OF 0(6)]
    by simp
  have "robin_hood sh ?d'"
    using robin_hood_place [OF 0(3) idx 0(6)] 0(1,8,10,11) emp by simp
  moreover have "slots_ok hsh ?d'" using slots_ok_update [OF 0(4)] 0(7) by simp
  moreover have "keys_distinct ?d'" using keys_distinct_update [OF 0(5)] 0(1,9) by simp
  moreover have "\<forall>k v. stored ?d' k v \<longleftrightarrow> stored d k v \<or> data s = Some (k, v)"
    using stored_update [OF idx, of s] stored_split [OF idx] emp 0(6) by auto
  moreover have "occ_count ?d' = occ_count d + 1"
    using occ_count_update [OF idx, of s] emp 0(6) by simp
  ultimately show ?case using loop 0(1) by simp
next
  case (Suc j)
  let ?X = "d ! idx"
  let ?dX = "slot_disp sh n idx ?X"
  let ?nx = "next_idx n idx"
  have idx: "idx < length d" using Suc.prems by simp
  have n2: "dist + Suc j < n" using Suc.prems by simp
  have occX: "occupied ?X" using Suc.prems(13) Suc.prems(2) by (auto dest: spec [of _ 0])
  then have hX: "hash ?X \<noteq> EMPTY_SLOT" by (simp add: occupied_def)
  have keyX: "slot_key ?X \<noteq> slot_key s" using Suc.prems(9) Suc.prems(2) occX by simp
  then have nomatch: "\<not> (hash ?X = hash s \<and> slot_key ?X = slot_key s)" by simp
  have nxl: "?nx < n" using next_idx_lt [OF Suc.prems(2)] .
  have pn: "prev_idx n ?nx = idx" using prev_next_idx [OF Suc.prems(2)] .
  have shift: "(?nx + x) mod n = (idx + Suc x) mod n" for x
  proof -
    have "?nx = (idx + 1) mod n"
      using next_idx_mod [of n idx] Suc.prems(2) by simp
    then show ?thesis by (simp add: mod_add_left_eq)
  qed
  have homeX: "ideal sh (hash ?X) < n"
    using robin_hoodD(1) [OF Suc.prems(3) idx occX] Suc.prems(1) by simp
  show ?case
  proof (cases "?dX < dist")
    case True
    let ?d' = "d[idx := s]"
    let ?pl' = "Some (case pl of Some p \<Rightarrow> p | None \<Rightarrow> idx)"
    have loop: "insert_slot_loop sh n (d, idx, dist, s, pl)
                = insert_slot_loop sh n (?d', ?nx, ?dX + 1, ?X, ?pl')"
      using insert_slot_loop_swap [OF idx hX nomatch True] .
    have occ_same: "occupied (?d' ! x) = occupied (d ! x)" if "x < n" for x
      using that occX Suc.prems(1,6) by (cases "x = idx") simp_all
    have rh': "robin_hood sh ?d'"
      using robin_hood_place [OF Suc.prems(3) idx Suc.prems(6)] Suc.prems(1,8,10,11) True
      by simp
    have so': "slots_ok hsh ?d'" using slots_ok_update [OF Suc.prems(4)] Suc.prems(7) by simp
    have kd': "keys_distinct ?d'"
      using keys_distinct_update [OF Suc.prems(5)] Suc.prems(1,9) by simp
    have okX: "slot_ok hsh ?X" using slots_okD [OF Suc.prems(4) idx occX] .
    have newX: "\<forall>i<n. occupied (?d' ! i) \<longrightarrow> slot_key (?d' ! i) \<noteq> slot_key ?X"
    proof (intro allI impI)
      fix i assume i: "i < n" "occupied (?d' ! i)"
      show "slot_key (?d' ! i) \<noteq> slot_key ?X"
      proof (cases "i = idx")
        case True
        then show ?thesis using keyX idx by simp
      next
        case False
        then have "occupied (d ! i)" using i by simp
        then show ?thesis
          using keys_distinctD [OF Suc.prems(5), of i idx] i(1) idx occX False Suc.prems(1)
          by auto
      qed
    qed
    have dist': "?dX + 1 = slot_disp sh n ?nx ?X"
      using displacement_next [OF Suc.prems(2) homeX] True n2 by (simp add: slot_disp_def)
    have pred': "0 < ?dX + 1 \<longrightarrow> occupied (?d' ! prev_idx n ?nx) \<and>
                 ?dX + 1 \<le> slot_disp sh n (prev_idx n ?nx) (?d' ! prev_idx n ?nx) + 1"
      using pn idx Suc.prems(6,10) True by simp
    have e': "\<not> occupied (?d' ! ((?nx + j) mod n))"
      using Suc.prems(12) occ_same [of "(?nx + j) mod n"] shift [of j] nxl by simp
    have o': "\<forall>j'<j. occupied (?d' ! ((?nx + j') mod n))"
    proof (intro allI impI)
      fix j' assume "j' < j"
      then have "Suc j' < Suc j" by simp
      then have "occupied (d ! ((idx + Suc j') mod n))" using Suc.prems(13) by blast
      then show "occupied (?d' ! ((?nx + j') mod n))"
        using occ_same [of "(?nx + j') mod n"] shift [of j'] nxl by simp
    qed
    have b': "?dX + 1 + j < n" using True n2 by simp
    have len': "n = length ?d'" using Suc.prems(1) by simp
    from Suc.IH [OF len' nxl rh' so' kd' occX okX homeX newX dist' pred' e' o' b', of ?pl']
    obtain d'' p where r: "insert_slot_loop sh n (?d', ?nx, ?dX + 1, ?X, ?pl') = Some (d'', p)"
      "length d'' = n" "robin_hood sh d''" "slots_ok hsh d''" "keys_distinct d''"
      "\<forall>k v. stored d'' k v \<longleftrightarrow> stored ?d' k v \<or> data ?X = Some (k, v)"
      "occ_count d'' = occ_count ?d' + 1" by blast
    have "\<forall>k v. stored d'' k v \<longleftrightarrow> stored d k v \<or> data s = Some (k, v)"
      using r(6) stored_update [OF idx, of s] stored_split [OF idx] occX Suc.prems(6) by auto
    moreover have "occ_count d'' = occ_count d + 1"
      using r(7) occ_count_update [OF idx, of s] occX Suc.prems(6) by simp
    ultimately show ?thesis using loop r by simp
  next
    case False
    have loop: "insert_slot_loop sh n (d, idx, dist, s, pl)
                = insert_slot_loop sh n (d, ?nx, dist + 1, s, pl)"
      using insert_slot_loop_next [OF idx hX nomatch False] .
    have dist': "dist + 1 = slot_disp sh n ?nx s"
      using displacement_next [OF Suc.prems(2,8)] Suc.prems(10) n2 by (simp add: slot_disp_def)
    have pred': "0 < dist + 1 \<longrightarrow> occupied (d ! prev_idx n ?nx) \<and>
                 dist + 1 \<le> slot_disp sh n (prev_idx n ?nx) (d ! prev_idx n ?nx) + 1"
      using pn occX False by simp
    have e': "\<not> occupied (d ! ((?nx + j) mod n))"
      using Suc.prems(12) shift [of j] by simp
    have o': "\<forall>j'<j. occupied (d ! ((?nx + j') mod n))"
    proof (intro allI impI)
      fix j' assume "j' < j"
      then have "Suc j' < Suc j" by simp
      then have "occupied (d ! ((idx + Suc j') mod n))" using Suc.prems(13) by blast
      then show "occupied (d ! ((?nx + j') mod n))" using shift [of j'] by simp
    qed
    have b': "dist + 1 + j < n" using n2 by simp
    from Suc.IH [OF Suc.prems(1) nxl Suc.prems(3,4,5,6,7,8,9) dist' pred' e' o' b', of pl] loop
    show ?thesis by simp
  qed
qed

subsection \<open>\<^verbatim>\<open>insert_slot\<close> on a table that keeps the invariant\<close>

lemma stored_unique:
  assumes kd: "keys_distinct d" and "stored d k v" "stored d k v'"
  shows "v = v'"
proof -
  from assms obtain i j where
    i: "i < length d" "occupied (d ! i)" "data (d ! i) = Some (k, v)" and
    j: "j < length d" "occupied (d ! j)" "data (d ! j) = Some (k, v')"
    by (auto simp: stored_def)
  then have "slot_key (d ! i) = slot_key (d ! j)" by (simp add: slot_key_def)
  from keys_distinctD [OF kd i(1) j(1) i(2) j(2) this] i(3) j(3) show ?thesis by simp
qed

lemma not_stored_new_key:
  assumes so: "slots_ok hsh d" and ab: "\<forall>v. \<not> stored d key v"
  shows "\<forall>i<length d. occupied (d ! i) \<longrightarrow> slot_key (d ! i) \<noteq> Some key"
proof (intro allI impI notI)
  fix i assume i: "i < length d" "occupied (d ! i)" "slot_key (d ! i) = Some key"
  then obtain v where "data (d ! i) = Some (key, v)" by (auto simp: slot_key_data)
  then have "stored d key v" using i by (auto simp: stored_def)
  with ab show False by simp
qed

text \<open>
  \<^verbatim>\<open>insert_slot\<close> on a table that keeps the invariant: it returns when the key is stored
  or a slot is empty, and the table it leaves keeps the invariant and stores the slot's
  pair in place of whatever the key had.
\<close>

lemma insert_slot_loop_table:
  assumes tok: "table_ok hsh sh d"
    and s: "occupied s" "slot_ok hsh s" "data s = Some (key, val)"
    and home: "ideal sh (hash s) < length d"
    and room: "(\<forall>v. \<not> stored d key v) \<longrightarrow> occ_count d < length d"
  shows "\<exists>d' p. insert_slot_loop sh (length d) (d, ideal sh (hash s), 0, s, None) = Some (d', p) \<and>
           length d' = length d \<and> table_ok hsh sh d' \<and>
           (\<forall>k v. stored d' k v \<longleftrightarrow> (if k = key then v = val else stored d k v)) \<and>
           occ_count d' = occ_count d + (if \<exists>v. stored d key v then 0 else 1)"
proof -
  let ?n = "length d"
  have rh: "robin_hood sh d" and so: "slots_ok hsh d" and kd: "keys_distinct d"
    using tok by (simp_all add: table_ok_def)
  have sk: "slot_key s = Some key" using s(3) by (simp add: slot_key_def)
  have hs: "hash s = hash_key hsh key" using slot_ok_key [OF s(2) sk] .
  show ?thesis
  proof (cases "\<exists>v. stored d key v")
    case True
    then obtain v0 p where p: "p < ?n" "occupied (d ! p)" "data (d ! p) = Some (key, v0)"
      by (auto simp: stored_def)
    then have pk: "slot_key (d ! p) = Some key" by (simp add: slot_key_def)
    have "insert_slot_loop sh ?n (d, (ideal sh (hash_key hsh key) + 0) mod ?n, 0, s, None)
          = Some (d[p := s], p)"
      by (rule insert_present_loop [OF tok s(1,2) sk p(1,2) pk]) simp_all
    then have "insert_slot_loop sh ?n (d, ideal sh (hash s), 0, s, None) = Some (d[p := s], p)"
      using home hs by simp
    moreover have "table_ok hsh sh (d[p := s])"
      using table_ok_update_same_key [OF tok p(1,2) pk s(1,2) sk] .
    moreover have "\<forall>k v. stored (d[p := s]) k v \<longleftrightarrow> (if k = key then v = val else stored d k v)"
      using stored_update_same_key [OF kd p(1,2) pk s(1,3)] by simp
    moreover have "occ_count (d[p := s]) = occ_count d"
      using occ_count_update [OF p(1), of s] p(2) s(1) by simp
    ultimately show ?thesis using True by simp
  next
    case False
    then have ab: "\<forall>v. \<not> stored d key v" by simp
    then have "occ_count d < ?n" using room by simp
    from empty_slot_exists [OF this] obtain e where e: "e < ?n" "\<not> occupied (d ! e)" by blast
    from first_empty [OF e home] obtain j where
      j: "j < ?n" "\<not> occupied (d ! ((ideal sh (hash s) + j) mod ?n))"
         "\<forall>j'<j. occupied (d ! ((ideal sh (hash s) + j') mod ?n))" by blast
    have new: "\<forall>i<?n. occupied (d ! i) \<longrightarrow> slot_key (d ! i) \<noteq> slot_key s"
      using not_stored_new_key [OF so ab] sk by simp
    have d0: "0 = slot_disp sh ?n (ideal sh (hash s)) s"
      by (simp add: slot_disp_def displacement_def)
    have "\<exists>d' p. insert_slot_loop sh ?n (d, ideal sh (hash s), 0, s, None) = Some (d', p) \<and>
          length d' = ?n \<and> robin_hood sh d' \<and> slots_ok hsh d' \<and> keys_distinct d' \<and>
          (\<forall>k v. stored d' k v \<longleftrightarrow> stored d k v \<or> data s = Some (k, v)) \<and>
          occ_count d' = occ_count d + 1"
      by (rule insert_absent_loop [OF refl home rh so kd s(1,2) home new d0 _ j(2,3)])
         (use j(1) in simp_all)
    then obtain d' p where r:
      "insert_slot_loop sh ?n (d, ideal sh (hash s), 0, s, None) = Some (d', p)"
      "length d' = ?n" "robin_hood sh d'" "slots_ok hsh d'" "keys_distinct d'"
      "\<forall>k v. stored d' k v \<longleftrightarrow> stored d k v \<or> data s = Some (k, v)"
      "occ_count d' = occ_count d + 1" by blast
    have "\<forall>k v. stored d' k v \<longleftrightarrow> (if k = key then v = val else stored d k v)"
      using r(6) ab s(3) by auto
    then show ?thesis using r False by (simp add: table_ok_def)
  qed
qed

subsection \<open>The loop of try_erase, branch by branch\<close>

lemma try_erase_loop_match:
  "idx < length d \<Longrightarrow> hash (d ! idx) = h \<and> slot_key (d ! idx) = Some key \<Longrightarrow>
   try_erase_loop sh cap d h key idx dist = Some (Some idx)"
  by (subst try_erase_loop.simps) simp

lemma try_erase_loop_exit:
  "idx < length d \<Longrightarrow> \<not> (hash (d ! idx) = h \<and> slot_key (d ! idx) = Some key) \<Longrightarrow>
   slot_disp sh cap idx (d ! idx) < dist \<Longrightarrow>
   try_erase_loop sh cap d h key idx dist = Some None"
  by (subst try_erase_loop.simps) (auto simp: Let_def slot_disp_def)

lemma try_erase_loop_next:
  "idx < length d \<Longrightarrow> \<not> (hash (d ! idx) = h \<and> slot_key (d ! idx) = Some key) \<Longrightarrow>
   \<not> slot_disp sh cap idx (d ! idx) < dist \<Longrightarrow>
   try_erase_loop sh cap d h key idx dist
     = try_erase_loop sh cap d h key (next_idx cap idx) (dist + 1)"
  by (subst try_erase_loop.simps) (auto simp: Let_def slot_disp_def)

text \<open>An empty slot counts as a slot at home in slot 0.\<close>

lemma slot_disp_empty: "\<not> occupied s \<Longrightarrow> slot_disp sh n idx s = idx"
  by (simp add: slot_disp_def occupied_def EMPTY_SLOT_def ideal_def displacement_def)

lemma try_erase_loop_correct:
  assumes tok: "table_ok hsh sh d"
    and home: "ideal sh (hash_key hsh key) < length d"
  shows "dist \<le> length d \<Longrightarrow>
    \<forall>j<dist. \<not> (occupied (d ! ((ideal sh (hash_key hsh key) + j) mod length d)) \<and>
                 slot_key (d ! ((ideal sh (hash_key hsh key) + j) mod length d)) = Some key) \<Longrightarrow>
    \<exists>r. try_erase_loop sh (length d) d (hash_key hsh key) key
           ((ideal sh (hash_key hsh key) + dist) mod length d) dist = Some r \<and>
        (case r of
           Some p \<Rightarrow> p < length d \<and> occupied (d ! p) \<and> slot_key (d ! p) = Some key
         | None \<Rightarrow> \<forall>v. \<not> stored d key v)"
proof (induction "length d - dist" arbitrary: dist rule: less_induct)
  case less
  let ?n = "length d"
  let ?h = "hash_key hsh key"
  let ?hm = "ideal sh ?h"
  let ?idx = "(?hm + dist) mod ?n"
  let ?s = "d ! ?idx"
  have n: "0 < ?n" using home by auto
  have idx: "?idx < ?n" using n by simp
  have rh: "robin_hood sh d" and so: "slots_ok hsh d" and kd: "keys_distinct d"
    using tok by (simp_all add: table_ok_def)
  have absent: "\<not> stored d key v" if "\<not> (occupied ?s \<and> dist \<le> slot_disp sh ?n ?idx ?s)" for v
  proof
    assume "stored d key v"
    then obtain p where p: "p < ?n" "occupied (d ! p)" "data (d ! p) = Some (key, v)"
      by (auto simp: stored_def)
    then have "slot_key (d ! p) = Some key" by (simp add: slot_key_def)
    from stored_not_missed [OF tok p(1,2) this less.prems(2)] that show False by simp
  qed
  show ?case
  proof (cases "hash ?s = ?h \<and> slot_key ?s = Some key")
    case True
    then have "occupied ?s" using hash_key_nonzero [of hsh key] by (simp add: occupied_def)
    then show ?thesis using try_erase_loop_match [OF idx True, of sh ?n dist] True idx by simp
  next
    case nomatch: False
    have nokey: "\<not> (occupied ?s \<and> slot_key ?s = Some key)"
      using nomatch slot_ok_key [OF slots_okD [OF so idx]] by auto
    show ?thesis
    proof (cases "slot_disp sh ?n ?idx ?s < dist")
      case True
      then have "\<forall>v. \<not> stored d key v" using absent by simp
      then show ?thesis using try_erase_loop_exit [OF idx nomatch True] by simp
    next
      case False
      have "slot_disp sh ?n ?idx ?s < ?n"
      proof (cases "occupied ?s")
        case True
        then show ?thesis
          using displacement_lt [OF idx robin_hoodD(1) [OF rh idx True]] by (simp add: slot_disp_def)
      next
        case False
        then show ?thesis using slot_disp_empty [OF False, of sh ?n ?idx] idx by simp
      qed
      then have d1: "dist + 1 \<le> ?n" using False by simp
      have seen: "\<forall>j<dist + 1. \<not> (occupied (d ! ((?hm + j) mod ?n)) \<and>
                 slot_key (d ! ((?hm + j) mod ?n)) = Some key)"
        using less.prems(2) nokey by (auto simp: less_Suc_eq)
      have "?n - (dist + 1) < ?n - dist" using d1 by simp
      from less.hyps [OF this d1 seen] obtain r where
        r: "try_erase_loop sh ?n d ?h key ((?hm + (dist + 1)) mod ?n) (dist + 1) = Some r"
           "case r of Some p \<Rightarrow> p < ?n \<and> occupied (d ! p) \<and> slot_key (d ! p) = Some key
            | None \<Rightarrow> \<forall>v. \<not> stored d key v" by blast
      have "next_idx ?n ?idx = (?hm + (dist + 1)) mod ?n"
        using next_idx_mod [OF n, of "?hm + dist"] by (simp add: add.assoc)
      then have "try_erase_loop sh ?n d ?h key ?idx dist = Some r"
        using r(1) try_erase_loop_next [OF idx nomatch False] by simp
      then show ?thesis using r(2) by blast
    qed
  qed
qed

subsection \<open>The loop of fix_up\<close>

lemma fix_up_loop_eq:
  assumes "0 < cap"
  shows "fix_up_loop sh cap d idx =
     (if idx < length d \<and> next_idx cap idx < length d then
        (if hash (d ! next_idx cap idx) = EMPTY_SLOT then Some d
         else if next_idx cap idx = ideal sh (hash (d ! next_idx cap idx)) then Some d
         else fix_up_loop sh cap
                (d[idx := Slot_move (d ! next_idx cap idx), next_idx cap idx := Slot_default])
                (next_idx cap idx))
      else None)"
proof -
  have "(if idx = cap - 1 then 0 else idx + 1) = next_idx cap idx"
    using assms by (auto simp: next_idx_def)
  then show ?thesis by (subst fix_up_loop.simps) (simp add: Let_def)
qed

lemma fix_up_loop_stop_empty:
  "idx < length d \<Longrightarrow> next_idx cap idx < length d \<Longrightarrow> 0 < cap \<Longrightarrow>
   hash (d ! next_idx cap idx) = EMPTY_SLOT \<Longrightarrow>
   fix_up_loop sh cap d idx = Some d"
  by (subst fix_up_loop_eq) simp_all

lemma fix_up_loop_stop_home:
  "idx < length d \<Longrightarrow> next_idx cap idx < length d \<Longrightarrow> 0 < cap \<Longrightarrow>
   hash (d ! next_idx cap idx) \<noteq> EMPTY_SLOT \<Longrightarrow>
   next_idx cap idx = ideal sh (hash (d ! next_idx cap idx)) \<Longrightarrow>
   fix_up_loop sh cap d idx = Some d"
  by (subst fix_up_loop_eq) simp_all

lemma fix_up_loop_move:
  "idx < length d \<Longrightarrow> next_idx cap idx < length d \<Longrightarrow> 0 < cap \<Longrightarrow>
   hash (d ! next_idx cap idx) \<noteq> EMPTY_SLOT \<Longrightarrow>
   next_idx cap idx \<noteq> ideal sh (hash (d ! next_idx cap idx)) \<Longrightarrow>
   fix_up_loop sh cap d idx
     = fix_up_loop sh cap
         (d[idx := Slot_move (d ! next_idx cap idx), next_idx cap idx := Slot_default])
         (next_idx cap idx)"
  by (subst fix_up_loop_eq) simp_all

subsection \<open>The backward shift\<close>

lemma next_idx_neq: "2 \<le> n \<Longrightarrow> idx < n \<Longrightarrow> next_idx n idx \<noteq> idx"
  by (auto simp: next_idx_def)

lemma prev_idx_neq: "2 \<le> n \<Longrightarrow> idx < n \<Longrightarrow> prev_idx n idx \<noteq> idx"
  by (auto simp: prev_idx_def)

lemma prev_idx_eq_iff: "i < n \<Longrightarrow> idx < n \<Longrightarrow> prev_idx n i = idx \<longleftrightarrow> i = next_idx n idx"
  by (auto simp: prev_idx_def next_idx_def)

text \<open>A table with a hole: it keeps the invariant when the slot after the hole is empty or
  at home, if it keeps the invariant with some slot put into the hole.\<close>

lemma robin_hood_hole:
  assumes rh: "robin_hood sh (d[idx := y])" and idx: "idx < length d"
    and hole: "\<not> occupied (d ! idx)"
    and nxt: "occupied (d ! next_idx (length d) idx) \<longrightarrow>
              slot_disp sh (length d) (next_idx (length d) idx) (d ! next_idx (length d) idx) = 0"
  shows "robin_hood sh d"
proof (rule robin_hoodI)
  let ?n = "length d"
  let ?f = "d[idx := y]"
  fix i assume i: "i < ?n" "occupied (d ! i)"
  then have ne: "i \<noteq> idx" using hole by auto
  then have fi: "?f ! i = d ! i" by simp
  have il: "i < length ?f" "occupied (?f ! i)" using i fi by simp_all
  show "ideal sh (hash (d ! i)) < ?n" using robin_hoodD(1) [OF rh il] fi by simp
  assume pos: "0 < slot_disp sh ?n i (d ! i)"
  then have "i \<noteq> next_idx ?n idx" using nxt i by auto
  then have pne: "prev_idx ?n i \<noteq> idx" using prev_idx_eq_iff [OF i(1) idx] by simp
  have "0 < slot_disp sh (length ?f) i (?f ! i)" using pos fi by simp
  from robin_hoodD(2,3) [OF rh il this] pne fi
  show "occupied (d ! prev_idx ?n i) \<and>
        slot_disp sh ?n i (d ! i) \<le> slot_disp sh ?n (prev_idx ?n i) (d ! prev_idx ?n i) + 1"
    by simp
qed

text \<open>Moving the slot after the hole into the hole.\<close>

lemma robin_hood_shift_back:
  assumes rh: "robin_hood sh (d[idx := y])" and n: "2 \<le> length d" and idx: "idx < length d"
    and Y: "occupied (d ! next_idx (length d) idx)"
           "0 < slot_disp sh (length d) (next_idx (length d) idx) (d ! next_idx (length d) idx)"
  shows "robin_hood sh (d[idx := d ! next_idx (length d) idx])"
proof (rule robin_hoodI)
  let ?n = "length d"
  let ?nx = "next_idx ?n idx"
  let ?Y = "d ! ?nx"
  let ?f = "d[idx := y]"
  let ?e = "d[idx := ?Y]"
  let ?dY = "slot_disp sh ?n ?nx ?Y"
  have nxl: "?nx < ?n" using next_idx_lt [OF idx] .
  have nne: "?nx \<noteq> idx" using next_idx_neq [OF n idx] .
  have pnx: "prev_idx ?n ?nx = idx" using prev_next_idx [OF idx] .
  have fY: "?f ! ?nx = ?Y" using nne by simp
  have fl: "?nx < length ?f" "occupied (?f ! ?nx)" using nxl Y fY by simp_all
  have homeY: "ideal sh (hash ?Y) < ?n" using robin_hoodD(1) [OF rh fl] fY by simp
  have posf: "0 < slot_disp sh (length ?f) ?nx (?f ! ?nx)" using Y(2) fY by simp
  from robin_hoodD(2,3) [OF rh fl posf] pnx idx
  have occy: "occupied y" and dYy: "?dY \<le> slot_disp sh ?n idx y + 1" using fY by simp_all
  have dYidx: "slot_disp sh ?n idx ?Y = ?dY - 1"
    using displacement_prev [OF nxl homeY] Y(2) pnx by (simp add: slot_disp_def)
  fix i assume i: "i < length ?e" "occupied (?e ! i)"
  then have il: "i < ?n" by simp
  show "ideal sh (hash (?e ! i)) < length ?e"
  proof (cases "i = idx")
    case True
    then show ?thesis using homeY idx by simp
  next
    case False
    then have "i < length ?f" "occupied (?f ! i)" using i by simp_all
    from robin_hoodD(1) [OF rh this] False show ?thesis by simp
  qed
  assume pos: "0 < slot_disp sh (length ?e) i (?e ! i)"
  show "occupied (?e ! prev_idx (length ?e) i) \<and>
        slot_disp sh (length ?e) i (?e ! i)
          \<le> slot_disp sh (length ?e) (prev_idx (length ?e) i) (?e ! prev_idx (length ?e) i) + 1"
  proof (cases "i = idx")
    case True
    have pne: "prev_idx ?n idx \<noteq> idx" using prev_idx_neq [OF n idx] .
    have p1: "0 < ?dY - 1" using pos True dYidx idx by simp
    then have "0 < slot_disp sh ?n idx y" using dYy by linarith
    then have "0 < slot_disp sh (length ?f) idx (?f ! idx)" using idx by simp
    from robin_hoodD(2,3) [OF rh _ _ this] idx occy pne
    have "occupied (d ! prev_idx ?n idx)"
      "slot_disp sh ?n idx y \<le> slot_disp sh ?n (prev_idx ?n idx) (d ! prev_idx ?n idx) + 1"
      by simp_all
    then show ?thesis using True pne dYidx dYy idx by simp
  next
    case ne: False
    show ?thesis
    proof (cases "i = ?nx")
      case True
      then show ?thesis using pnx idx nne dYidx Y by simp
    next
      case False
      then have pne: "prev_idx ?n i \<noteq> idx" using prev_idx_eq_iff [OF il idx] by simp
      have "i < length ?f" "occupied (?f ! i)" "0 < slot_disp sh (length ?f) i (?f ! i)"
        using i pos ne by simp_all
      from robin_hoodD(2,3) [OF rh this] pne ne show ?thesis by simp
    qed
  qed
qed

lemma total_disp_shift_back:
  assumes n: "2 \<le> length d" and idx: "idx < length d" and hole: "\<not> occupied (d ! idx)"
    and Y: "occupied (d ! next_idx (length d) idx)"
           "0 < slot_disp sh (length d) (next_idx (length d) idx) (d ! next_idx (length d) idx)"
    and homeY: "ideal sh (hash (d ! next_idx (length d) idx)) < length d"
  shows "total_disp sh (d[idx := d ! next_idx (length d) idx, next_idx (length d) idx := Slot_default])
         < total_disp sh d"
proof -
  let ?n = "length d"
  let ?nx = "next_idx ?n idx"
  let ?Y = "d ! ?nx"
  let ?d' = "d[idx := ?Y, ?nx := Slot_default]"
  let ?S = "{..<?n} - {idx} - {?nx}"
  define g where "g = (\<lambda>(x :: ('a, 'b) slot list) i.
     if occupied (x ! i) then slot_disp sh (length x) i (x ! i) else 0)"
  have nxl: "?nx < ?n" using next_idx_lt [OF idx] .
  have nne: "?nx \<noteq> idx" using next_idx_neq [OF n idx] .
  have pnx: "prev_idx ?n ?nx = idx" using prev_next_idx [OF idx] .
  have td: "total_disp sh x = sum (g x) {..<length x}" for x
    by (simp add: total_disp_def g_def)
  have split: "sum (g x) {..<?n} = g x idx + (g x ?nx + sum (g x) ?S)" for x
  proof -
    have "sum (g x) {..<?n} = g x idx + sum (g x) ({..<?n} - {idx})"
      using idx by (intro sum.remove) simp_all
    moreover have "sum (g x) ({..<?n} - {idx}) = g x ?nx + sum (g x) ?S"
      using nxl nne by (intro sum.remove) simp_all
    ultimately show ?thesis by simp
  qed
  have rest: "sum (g ?d') ?S = sum (g d) ?S"
    by (intro sum.cong) (simp_all add: g_def)
  have "slot_disp sh ?n idx ?Y = slot_disp sh ?n ?nx ?Y - 1"
    using displacement_prev [OF nxl homeY] Y(2) pnx by (simp add: slot_disp_def)
  then have a: "g ?d' idx < g d ?nx" using Y idx nne by (simp add: g_def)
  have b: "g ?d' ?nx = 0" using nxl by (simp add: g_def occupied_def Slot_default_def)
  have c: "g d idx = 0" using hole by (simp add: g_def)
  have "total_disp sh ?d' = g ?d' idx + (g ?d' ?nx + sum (g ?d') ?S)"
    using td [of ?d'] split [of ?d'] by simp
  moreover have "total_disp sh d = g d idx + (g d ?nx + sum (g d) ?S)"
    using td [of d] split [of d] by simp
  ultimately show ?thesis using a b c rest by simp
qed

lemma not_occupied_default [simp]: "\<not> occupied Slot_default"
  by (simp add: occupied_def Slot_default_def)

lemma fix_up_loop_ok:
  "\<lbrakk>n = length d; 2 \<le> n; idx < n; \<not> occupied (d ! idx); slots_ok hsh d; keys_distinct d;
    robin_hood sh (d[idx := y])\<rbrakk>
   \<Longrightarrow> \<exists>d'. fix_up_loop sh n d idx = Some d' \<and> length d' = n \<and> table_ok hsh sh d' \<and>
          (\<forall>k v. stored d' k v \<longleftrightarrow> stored d k v) \<and> occ_count d' = occ_count d"
proof (induction "total_disp sh d" arbitrary: d idx y rule: less_induct)
  case less
  let ?nx = "next_idx n idx"
  let ?Y = "d ! ?nx"
  have idx: "idx < length d" and n2: "2 \<le> length d" and n0: "0 < n"
    using less.prems by auto
  have nxl: "?nx < length d" using next_idx_lt [OF less.prems(3)] less.prems(1) by simp
  have nne: "?nx \<noteq> idx" using next_idx_neq [OF less.prems(2,3)] .
  have pnx: "prev_idx n ?nx = idx" using prev_next_idx [OF less.prems(3)] .
  have rh: "robin_hood sh (d[idx := y])" using less.prems(7) .
  have len: "length d = n" using less.prems(1) by simp
  show ?case
  proof (cases "occupied ?Y \<and> 0 < slot_disp sh n ?nx ?Y")
    case False
    then have "occupied (d ! next_idx (length d) idx) \<longrightarrow>
               slot_disp sh (length d) (next_idx (length d) idx) (d ! next_idx (length d) idx) = 0"
      using len by auto
    from robin_hood_hole [OF rh idx less.prems(4) this]
    have tok: "table_ok hsh sh d" using less.prems(5,6) by (simp add: table_ok_def)
    have "fix_up_loop sh n d idx = Some d"
    proof (cases "hash ?Y = EMPTY_SLOT")
      case True
      then show ?thesis using fix_up_loop_stop_empty [OF idx nxl n0] by simp
    next
      case occ: False
      then have o: "occupied ?Y" by (simp add: occupied_def)
      then have "slot_disp sh n ?nx ?Y = 0" using False by simp
      moreover have "ideal sh (hash ?Y) < n"
        using robin_hoodD(1) [OF tok [unfolded table_ok_def, THEN conjunct1] nxl] o len by simp
      ultimately have "?nx = ideal sh (hash ?Y)"
        using displacement_zero_iff [of ?nx n "ideal sh (hash ?Y)"] nxl len
        by (simp add: slot_disp_def)
      then show ?thesis using fix_up_loop_stop_home [OF idx nxl n0 occ] by simp
    qed
    then show ?thesis using tok len by simp
  next
    case True
    then have occY: "occupied ?Y" and posY: "0 < slot_disp sh n ?nx ?Y" by simp_all
    let ?d' = "d[idx := ?Y, ?nx := Slot_default]"
    have fY: "(d[idx := y]) ! ?nx = ?Y" using nne by simp
    have homeY: "ideal sh (hash ?Y) < n"
      using robin_hoodD(1) [OF rh, of ?nx] nxl occY fY len by simp
    have hY: "hash ?Y \<noteq> EMPTY_SLOT" using occY by (simp add: occupied_def)
    have nothome: "?nx \<noteq> ideal sh (hash ?Y)"
      using posY displacement_zero_iff [of ?nx n "ideal sh (hash ?Y)"] nxl len homeY
      by (auto simp: slot_disp_def)
    have loop: "fix_up_loop sh n d idx = fix_up_loop sh n ?d' ?nx"
      using fix_up_loop_move [OF idx nxl n0 hY nothome] Slot_move_occupied [OF occY] by simp
    have m: "total_disp sh ?d' < total_disp sh d"
      using total_disp_shift_back [OF n2 idx less.prems(4), of sh] occY posY homeY len by simp
    have len': "n = length ?d'" using len by simp
    have nx': "?nx < n" using nxl len by simp
    have hole': "\<not> occupied (?d' ! ?nx)" using nxl by simp
    have so': "slots_ok hsh ?d'"
      using slots_ok_update [OF slots_ok_update [OF less.prems(5), of ?Y idx], of Slot_default ?nx]
        slots_okD [OF less.prems(5) nxl] by simp
    have kd': "keys_distinct ?d'"
      unfolding keys_distinct_def
    proof (intro ballI impI)
      fix i j assume ij: "i \<in> {0..<length ?d'}" "j \<in> {0..<length ?d'}"
        and h: "occupied (?d' ! i) \<and> occupied (?d' ! j) \<and> slot_key (?d' ! i) = slot_key (?d' ! j)"
      define f where "f = (\<lambda>x. if x = idx then ?nx else x)"
      have fl: "f x < length d" if "x < length d" for x using that nxl by (simp add: f_def)
      have fv: "?d' ! x = d ! f x" if "x < length d" "occupied (?d' ! x)" for x
      proof (cases "x = ?nx")
        case True
        then show ?thesis using that hole' by simp
      next
        case False
        then show ?thesis using that nne by (cases "x = idx") (simp_all add: f_def)
      qed
      have fne: "x \<noteq> ?nx" if "x < length d" "occupied (?d' ! x)" for x
        using that hole' by auto
      from ij h have "occupied (d ! f i)" "occupied (d ! f j)" "slot_key (d ! f i) = slot_key (d ! f j)"
        using fv [of i] fv [of j] by simp_all
      from keys_distinctD [OF less.prems(6) fl fl this] ij have "f i = f j" by simp
      then show "i = j" using fne [of i] fne [of j] ij h by (auto simp: f_def split: if_splits)
    qed
    have ph: "?d'[?nx := ?Y] = d[idx := ?Y]"
    proof -
      have "(d[idx := ?Y])[?nx := (d[idx := ?Y]) ! ?nx] = d[idx := ?Y]" by (rule list_update_id)
      moreover have "(d[idx := ?Y]) ! ?nx = ?Y" using nne by simp
      ultimately show ?thesis by simp
    qed
    have rh': "robin_hood sh (?d'[?nx := ?Y])"
      using robin_hood_shift_back [OF rh n2 idx] occY posY len ph by simp
    from less.hyps [OF m len' less.prems(2) nx' hole' so' kd' rh']
    obtain d'' where r: "fix_up_loop sh n ?d' ?nx = Some d''" "length d'' = n"
      "table_ok hsh sh d''" "\<forall>k v. stored d'' k v \<longleftrightarrow> stored ?d' k v"
      "occ_count d'' = occ_count ?d'" by blast
    have st: "stored ?d' k v \<longleftrightarrow> stored d k v" for k v
    proof -
      have a: "stored d k v \<longleftrightarrow>
               (data ?Y = Some (k, v)) \<or>
               (\<exists>i<length d. i \<noteq> idx \<and> i \<noteq> ?nx \<and> occupied (d ! i) \<and> data (d ! i) = Some (k, v))"
        unfolding stored_def using less.prems(4) occY nxl by (metis)
      have b: "stored ?d' k v \<longleftrightarrow>
               (data ?Y = Some (k, v)) \<or>
               (\<exists>i<length d. i \<noteq> idx \<and> i \<noteq> ?nx \<and> occupied (d ! i) \<and> data (d ! i) = Some (k, v))"
      proof
        assume "stored ?d' k v"
        then obtain i where i: "i < length d" "occupied (?d' ! i)" "data (?d' ! i) = Some (k, v)"
          by (auto simp: stored_def)
        then have "i \<noteq> ?nx" using hole' by auto
        then show "(data ?Y = Some (k, v)) \<or>
               (\<exists>i<length d. i \<noteq> idx \<and> i \<noteq> ?nx \<and> occupied (d ! i) \<and> data (d ! i) = Some (k, v))"
          using i nne by (cases "i = idx") auto
      next
        assume "(data ?Y = Some (k, v)) \<or>
               (\<exists>i<length d. i \<noteq> idx \<and> i \<noteq> ?nx \<and> occupied (d ! i) \<and> data (d ! i) = Some (k, v))"
        then show "stored ?d' k v"
        proof
          assume "data ?Y = Some (k, v)"
          then have "occupied (?d' ! idx) \<and> data (?d' ! idx) = Some (k, v)"
            using occY idx nne by simp
          then show ?thesis using idx by (auto simp: stored_def)
        next
          assume "\<exists>i<length d. i \<noteq> idx \<and> i \<noteq> ?nx \<and> occupied (d ! i) \<and> data (d ! i) = Some (k, v)"
          then obtain i where "i < length d" "i \<noteq> idx" "i \<noteq> ?nx" "occupied (d ! i)"
            "data (d ! i) = Some (k, v)" by blast
          then have "i < length ?d' \<and> occupied (?d' ! i) \<and> data (?d' ! i) = Some (k, v)" by simp
          then show ?thesis unfolding stored_def by blast
        qed
      qed
      from a b show ?thesis by simp
    qed
    have oc: "occ_count ?d' = occ_count d"
    proof -
      have "occ_count (d[idx := ?Y]) = occ_count d + 1"
        using occ_count_update [OF idx, of ?Y] less.prems(4) occY by simp
      moreover have "occ_count ?d' + 1 = occ_count (d[idx := ?Y])"
        using occ_count_update [of ?nx "d[idx := ?Y]" Slot_default] nxl nne occY by simp
      ultimately show ?thesis by simp
    qed
    show ?thesis using loop r st oc by simp
  qed
qed

subsection \<open>Homes are inside the table\<close>

lemma bit_width_pos: "0 < n \<Longrightarrow> 0 < bit_width n"
  by (subst bit_width.simps) simp

lemma bit_width_le: "0 < n \<Longrightarrow> 2 ^ (bit_width n - 1) \<le> n"
proof (induction n rule: bit_width.induct)
  case (1 n)
  show ?case
  proof (cases "n div 2 = 0")
    case True
    then have "bit_width (n div 2) = 0" by (simp add: bit_width.simps)
    then have "bit_width n = 1" using 1(2) by (subst bit_width.simps) simp
    then show ?thesis using 1(2) by simp
  next
    case False
    then have "2 ^ (bit_width (n div 2) - 1) \<le> n div 2" using 1 by simp
    moreover have "bit_width n = Suc (bit_width (n div 2))"
      using 1(2) by (subst bit_width.simps) simp
    moreover have "0 < bit_width (n div 2)" using False bit_width_pos by simp
    ultimately have "2 ^ (bit_width n - 1) \<le> 2 * (n div 2)"
      by (cases "bit_width (n div 2)") simp_all
    then show ?thesis by linarith
  qed
qed

lemma ideal_div: "ideal sh h = unat h div 2 ^ sh"
  unfolding ideal_def unat_drop_bit_eq by (simp add: drop_bit_eq_div)

lemma ideal_lt:
  assumes "sh \<le> 64"
  shows "ideal sh (h :: u64) < 2 ^ (64 - sh)"
proof -
  have "unat h < 2 ^ 64" using unsigned_less [of h, where 'a = nat] by simp
  also have "(2::nat) ^ 64 = 2 ^ sh * 2 ^ (64 - sh)"
    using assms by (simp flip: power_add)
  finally have "unat h div 2 ^ sh < 2 ^ (64 - sh)"
    by (simp add: less_mult_imp_div_less mult.commute)
  then show ?thesis by (simp add: ideal_div)
qed

lemma ideal_large_shift:
  assumes "64 \<le> sh"
  shows "ideal sh (h :: u64) = 0"
proof -
  have "unat h < 2 ^ 64" using unsigned_less [of h, where 'a = nat] by simp
  also have "(2::nat) ^ 64 \<le> 2 ^ sh" using assms by (intro power_increasing) simp_all
  finally show ?thesis by (simp add: ideal_div)
qed

lemma home_in_range:
  assumes "0 < n"
  shows "ideal (ctlz n + 1) h < n"
proof (cases "bit_width n \<le> 64")
  case True
  let ?sh = "ctlz n + 1"
  have bw: "0 < bit_width n" using bit_width_pos [OF assms] .
  show ?thesis
  proof (cases "bit_width n = 1")
    case one: True
    then have "64 \<le> ?sh" by (simp add: ctlz_def)
    then show ?thesis using ideal_large_shift assms by simp
  next
    case False
    then have sh: "?sh \<le> 64" "64 - ?sh = bit_width n - 1"
      using True bw by (simp_all add: ctlz_def)
    from ideal_lt [OF sh(1), of h] bit_width_le [OF assms] sh(2) show ?thesis by simp
  qed
next
  case False
  then have sh: "ctlz n + 1 = 1" by (simp add: ctlz_def)
  have "(2::nat) ^ 63 \<le> 2 ^ (bit_width n - 1)"
    using False by (intro power_increasing) simp_all
  then have "(2::nat) ^ 63 \<le> n" using bit_width_le [OF assms] by linarith
  moreover have "ideal 1 h < 2 ^ 63" using ideal_lt [of 1 h] by simp
  ultimately show ?thesis using sh by simp
qed

subsection \<open>Lookup in a well-formed map\<close>

lemma occ_count_zero: "occ_count d = 0 \<Longrightarrow> i < length d \<Longrightarrow> \<not> occupied (d ! i)"
  by (auto simp: occ_count_def filter_empty_conv)

lemma occ_count_full: "occ_count d = length d \<Longrightarrow> i < length d \<Longrightarrow> occupied (d ! i)"
proof (rule ccontr)
  assume a: "occ_count d = length d" "i < length d" "\<not> occupied (d ! i)"
  then have "d ! i \<in> set d" by simp
  with a(3) have "length (filter occupied d) < length d"
    by (intro length_filter_less) auto
  with a(1) show False by (simp add: occ_count_def)
qed

lemma Map_wf_home:
  "Map_wf hsh m \<Longrightarrow> 0 < Map_capacity m \<Longrightarrow> ideal (Map_shift m) h < length (Map_data m)"
  using home_in_range [of "Map_capacity m" h] by (simp add: Map_wf_def)

text \<open>The lookup returns, and what it returns is what the table stores.\<close>

lemma Map_try_get_stored:
  assumes wf: "Map_wf hsh m"
  shows "\<exists>r. Map_try_get hsh key m = Some r \<and> (\<forall>v. r = Some v \<longleftrightarrow> stored (Map_data m) key v)"
proof (cases "Map_empty m")
  case True
  then have "occ_count (Map_data m) = 0" using wf by (simp add: Map_wf_def Map_empty_def)
  then have "\<forall>v. \<not> stored (Map_data m) key v"
    using occ_count_zero by (auto simp: stored_def)
  then show ?thesis using True by (simp add: Map_try_get_def)
next
  case False
  then have cap: "0 < Map_capacity m" using wf by (auto simp: Map_wf_def Map_empty_def)
  have tok: "table_ok hsh (Map_shift m) (Map_data m)"
    and len: "length (Map_data m) = Map_capacity m" using wf by (simp_all add: Map_wf_def)
  have home: "ideal (Map_shift m) (hash_key hsh key) < length (Map_data m)"
    using Map_wf_home [OF wf cap] .
  have "\<exists>r. try_get_loop (Map_shift m) (length (Map_data m)) (Map_data m) (hash_key hsh key) key
           ((ideal (Map_shift m) (hash_key hsh key) + 0) mod length (Map_data m)) 0 = Some r \<and>
        (\<forall>v. r = Some v \<longleftrightarrow> stored (Map_data m) key v)"
    by (rule try_get_loop_correct [OF tok home]) simp_all
  then show ?thesis using False home len by (simp add: Map_try_get_def Let_def)
qed

text \<open>
  On a table without an empty slot the loop of \<^verbatim>\<open>insert_slot\<close> does not return for a key
  that is not stored: no round finds an empty slot or the key, and a swap carries on a key
  that the table no longer has.
\<close>

lemma full_without_step:
  assumes "full_without cap st"
  shows "\<exists>st'. insert_slot_step sh cap st = Inl st' \<and> full_without cap st'"
proof -
  obtain d idx dist s pl where st: "st = (d, idx, dist, s, pl)" by (cases st)
  from assms have a: "cap = length d" "idx < length d" "occupied s" "keys_distinct d"
    "\<And>i. i < length d \<Longrightarrow> occupied (d ! i)"
    "\<And>i. i < length d \<Longrightarrow> slot_key (d ! i) \<noteq> slot_key s"
    by (simp_all add: full_without_def st)
  have h: "hash (d ! idx) \<noteq> EMPTY_SLOT" using a(5) [OF a(2)] by (simp add: occupied_def)
  have k: "slot_key (d ! idx) \<noteq> slot_key s" using a(6) [OF a(2)] .
  have nx: "next_idx cap idx < length d" using next_idx_lt [of idx cap] a(1,2) by simp
  show ?thesis
  proof (cases "displacement cap idx (ideal sh (hash (d ! idx))) < dist")
    case True
    let ?d' = "d[idx := s]"
    have "keys_distinct ?d'" using keys_distinct_update [OF a(4)] a(6) by simp
    moreover have "occupied (?d' ! i) \<and> slot_key (?d' ! i) \<noteq> slot_key (d ! idx)"
      if "i < length d" for i
    proof (cases "i = idx")
      case True
      then show ?thesis using a(2,3) k by simp
    next
      case False
      have "occupied (d ! i)" "occupied (d ! idx)" using a(5) that a(2) by blast+
      with False keys_distinctD [OF a(4) that a(2)] show ?thesis by auto
    qed
    ultimately show ?thesis
      using True h k a nx by (simp add: st insert_slot_step_def Let_def full_without_def)
  next
    case False
    then show ?thesis
      using h k a nx by (simp add: st insert_slot_step_def Let_def full_without_def)
  qed
qed

lemma insert_slot_loop_full:
  assumes "insert_slot_loop sh cap st = Some r"
  shows "\<not> full_without cap st"
proof (rule insert_slot_loop.raw_induct [OF _ assms])
  fix f sh cap and st :: "('a, 'b) ins_state" and r
  assume ih: "\<And>sh cap st r. f sh cap st = Some r \<Longrightarrow> \<not> full_without cap st"
    and body: "(case st of (d, idx, dist, s, placement) \<Rightarrow>
        if idx < length d then
          (case insert_slot_step sh cap st of
             Inl st' \<Rightarrow> f sh cap st'
           | Inr r \<Rightarrow> Some r)
        else None) = Some r"
  show "\<not> full_without cap st"
  proof
    assume fw: "full_without cap st"
    from full_without_step [OF this, of sh] obtain st' where
      s: "insert_slot_step sh cap st = Inl st'" "full_without cap st'" by blast
    obtain d idx dist s pl where st: "st = (d, idx, dist, s, pl)" by (cases st)
    have "idx < length d" using fw by (simp add: full_without_def st)
    with body s(1) have "f sh cap st' = Some r" by (simp add: st)
    with ih s(2) show False by blast
  qed
qed

subsection \<open>The loop of \<^verbatim>\<open>reserve\<close>\<close>

lemma Map_insert_slot_table:
  assumes len: "length (Map_data m) = Map_capacity m"
    and tok: "table_ok hsh (Map_shift m) (Map_data m)"
    and s: "occupied s" "slot_ok hsh s" "data s = Some (key, val)"
    and home: "ideal (Map_shift m) (hash s) < length (Map_data m)"
    and room: "(\<forall>v. \<not> stored (Map_data m) key v) \<longrightarrow> occ_count (Map_data m) < length (Map_data m)"
  shows "\<exists>d' p. Map_insert_slot s m = Some (m\<lparr>Map_data := d'\<rparr>, p) \<and>
           length d' = length (Map_data m) \<and> table_ok hsh (Map_shift m) d' \<and>
           (\<forall>k v. stored d' k v \<longleftrightarrow> (if k = key then v = val else stored (Map_data m) k v)) \<and>
           occ_count d' = occ_count (Map_data m) + (if \<exists>v. stored (Map_data m) key v then 0 else 1)"
proof -
  from insert_slot_loop_table [OF tok s home room] obtain d' p where
    l: "insert_slot_loop (Map_shift m) (length (Map_data m))
          (Map_data m, ideal (Map_shift m) (hash s), 0, s, None) = Some (d', p)"
    and r: "length d' = length (Map_data m)" "table_ok hsh (Map_shift m) d'"
      "\<forall>k v. stored d' k v \<longleftrightarrow> (if k = key then v = val else stored (Map_data m) k v)"
      "occ_count d' = occ_count (Map_data m) + (if \<exists>v. stored (Map_data m) key v then 0 else 1)"
    by blast
  have "Map_insert_slot s m = Some (m\<lparr>Map_data := d'\<rparr>, p)"
    using l by (simp add: Map_insert_slot_def len)
  with r show ?thesis by blast
qed

lemma keys_distinct_Cons:
  assumes "keys_distinct (s # ss)"
  shows "keys_distinct ss"
    and "occupied s \<Longrightarrow> t \<in> set ss \<Longrightarrow> occupied t \<Longrightarrow> slot_key t \<noteq> slot_key s"
proof -
  show "keys_distinct ss"
    unfolding keys_distinct_def
  proof (intro ballI impI)
    fix i j assume ij: "i \<in> {0..<length ss}" "j \<in> {0..<length ss}"
      and h: "occupied (ss ! i) \<and> occupied (ss ! j) \<and> slot_key (ss ! i) = slot_key (ss ! j)"
    from keys_distinctD [OF assms, of "Suc i" "Suc j"] ij h show "i = j" by simp
  qed
next
  assume a: "occupied s" "t \<in> set ss" "occupied t"
  then obtain i where i: "i < length ss" "ss ! i = t" by (auto simp: in_set_conv_nth)
  show "slot_key t \<noteq> slot_key s"
  proof
    assume "slot_key t = slot_key s"
    with keys_distinctD [OF assms, of "Suc i" 0] a i show False by simp
  qed
qed

lemma slots_ok_Cons:
  assumes "slots_ok hsh (s # ss)"
  shows "slots_ok hsh ss" and "occupied s \<Longrightarrow> slot_ok hsh s"
proof -
  show "slots_ok hsh ss"
    unfolding slots_ok_def
  proof (intro ballI impI)
    fix i assume "i \<in> {0..<length ss}" "occupied (ss ! i)"
    with slots_okD [OF assms, of "Suc i"] show "slot_ok hsh (ss ! i)" by simp
  qed
next
  assume "occupied s"
  with slots_okD [OF assms, of 0] show "slot_ok hsh s" by simp
qed

lemma occ_count_Cons: "occ_count (s # ss) = (if occupied s then 1 else 0) + occ_count ss"
  by (simp add: occ_count_def)

lemma slot_ok_data: "slot_ok hsh s \<Longrightarrow> \<exists>k v. data s = Some (k, v) \<and> slot_key s = Some k"
  by (auto simp: slot_ok_def slot_key_def split: option.splits)

lemma stored_key: "stored d k v \<Longrightarrow> \<exists>i<length d. occupied (d ! i) \<and> slot_key (d ! i) = Some k"
  by (auto simp: stored_def slot_key_def)

text \<open>
  The loop of \<^verbatim>\<open>reserve\<close>: slots with distinct keys, none of them in the table yet, all
  arrive in a table that has room for them.
\<close>

lemma reinsert_table:
  "\<lbrakk>length (Map_data m) = Map_capacity m; table_ok hsh (Map_shift m) (Map_data m);
    \<And>h. ideal (Map_shift m) h < Map_capacity m;
    slots_ok hsh ss; keys_distinct ss;
    \<And>t i. t \<in> set ss \<Longrightarrow> occupied t \<Longrightarrow> i < length (Map_data m) \<Longrightarrow> occupied (Map_data m ! i)
       \<Longrightarrow> slot_key (Map_data m ! i) \<noteq> slot_key t;
    occ_count (Map_data m) + occ_count ss < Map_capacity m\<rbrakk>
   \<Longrightarrow> \<exists>d'. reinsert ss m = Some (m\<lparr>Map_data := d'\<rparr>) \<and> length d' = Map_capacity m \<and>
          table_ok hsh (Map_shift m) d' \<and>
          (\<forall>k v. stored d' k v \<longleftrightarrow> stored (Map_data m) k v \<or> stored ss k v) \<and>
          occ_count d' = occ_count (Map_data m) + occ_count ss"
proof (induction ss arbitrary: m)
  case Nil
  have "m\<lparr>Map_data := Map_data m\<rparr> = m" by simp
  then show ?case using Nil by (auto simp: stored_def occ_count_def intro!: exI [of _ "Map_data m"])
next
  case (Cons s ss)
  note so = slots_ok_Cons [OF Cons.prems(4)]
  note kd = keys_distinct_Cons [OF Cons.prems(5)]
  have st: "stored (s # ss) k v \<longleftrightarrow> (occupied s \<and> data s = Some (k, v)) \<or> stored ss k v" for k v
  proof -
    have "stored (s # ss) k v \<longleftrightarrow>
          (\<exists>i<Suc (length ss). occupied ((s # ss) ! i) \<and> data ((s # ss) ! i) = Some (k, v))"
      by (simp add: stored_def)
    also have "\<dots> \<longleftrightarrow> (occupied s \<and> data s = Some (k, v)) \<or>
          (\<exists>i<length ss. occupied (ss ! i) \<and> data (ss ! i) = Some (k, v))"
      by (auto simp: less_Suc_eq_0_disj)
    finally show ?thesis by (simp add: stored_def)
  qed
  show ?case
  proof (cases "occupied s")
    case False
    then have h: "\<not> hash s \<noteq> EMPTY_SLOT" by (simp add: occupied_def)
    have "\<exists>d'. reinsert ss m = Some (m\<lparr>Map_data := d'\<rparr>) \<and> length d' = Map_capacity m \<and>
          table_ok hsh (Map_shift m) d' \<and>
          (\<forall>k v. stored d' k v \<longleftrightarrow> stored (Map_data m) k v \<or> stored ss k v) \<and>
          occ_count d' = occ_count (Map_data m) + occ_count ss"
    proof (rule Cons.IH [OF Cons.prems(1,2,3) so(1) kd(1)])
      show "slot_key (Map_data m ! i) \<noteq> slot_key t"
        if "t \<in> set ss" "occupied t" "i < length (Map_data m)" "occupied (Map_data m ! i)" for t i
        using Cons.prems(6) [of t i] that by simp
      show "occ_count (Map_data m) + occ_count ss < Map_capacity m"
        using Cons.prems(7) False by (simp add: occ_count_Cons)
    qed
    then show ?thesis using False h by (simp add: st occ_count_Cons)
  next
    case True
    then have h: "hash s \<noteq> EMPTY_SLOT" by (simp add: occupied_def)
    from slot_ok_data [OF so(2) [OF True]] obtain key val where
      kv: "data s = Some (key, val)" "slot_key s = Some key" by blast
    have absent: "\<not> stored (Map_data m) key v" for v
    proof
      assume "stored (Map_data m) key v"
      from stored_key [OF this] obtain i where
        "i < length (Map_data m)" "occupied (Map_data m ! i)" "slot_key (Map_data m ! i) = Some key"
        by blast
      with Cons.prems(6) [of s i] True kv show False by simp
    qed
    have home: "ideal (Map_shift m) (hash s) < length (Map_data m)"
      using Cons.prems(1,3) by simp
    have room: "(\<forall>v. \<not> stored (Map_data m) key v) \<longrightarrow> occ_count (Map_data m) < length (Map_data m)"
      using Cons.prems(1,7) by simp
    from Map_insert_slot_table [OF Cons.prems(1,2) True so(2) [OF True] kv(1) home room]
    obtain d1 p where
      i: "Map_insert_slot s m = Some (m\<lparr>Map_data := d1\<rparr>, p)"
      and l1: "length d1 = length (Map_data m)"
      and t1: "table_ok hsh (Map_shift m) d1"
      and s1: "\<forall>k v. stored d1 k v \<longleftrightarrow> (if k = key then v = val else stored (Map_data m) k v)"
      and o1: "occ_count d1 = occ_count (Map_data m) + (if \<exists>v. stored (Map_data m) key v then 0 else 1)"
      by blast
    let ?m1 = "m\<lparr>Map_data := d1\<rparr>"
    have o1': "occ_count d1 = occ_count (Map_data m) + 1" using o1 absent by simp
    have "\<exists>d'. reinsert ss ?m1 = Some (?m1\<lparr>Map_data := d'\<rparr>) \<and> length d' = Map_capacity ?m1 \<and>
          table_ok hsh (Map_shift ?m1) d' \<and>
          (\<forall>k v. stored d' k v \<longleftrightarrow> stored (Map_data ?m1) k v \<or> stored ss k v) \<and>
          occ_count d' = occ_count (Map_data ?m1) + occ_count ss"
    proof (rule Cons.IH [OF _ _ _ so(1) kd(1)])
      show "length (Map_data ?m1) = Map_capacity ?m1" using l1 Cons.prems(1) by simp
      show "table_ok hsh (Map_shift ?m1) (Map_data ?m1)" using t1 by simp
      show "ideal (Map_shift ?m1) h < Map_capacity ?m1" for h using Cons.prems(3) by simp
      show "slot_key (Map_data ?m1 ! i) \<noteq> slot_key t"
        if a: "t \<in> set ss" "occupied t" "i < length (Map_data ?m1)" "occupied (Map_data ?m1 ! i)"
        for t i
      proof
        assume e: "slot_key (Map_data ?m1 ! i) = slot_key t"
        have "slot_ok hsh t"
          using so(1) a(1,2) by (auto simp: slots_ok_def in_set_conv_nth)
        from slot_ok_data [OF this] obtain k v where t: "data t = Some (k, v)" "slot_key t = Some k"
          by blast
        have ne: "k \<noteq> key" using kd(2) [OF True a(1,2)] t kv by auto
        have "slot_ok hsh (d1 ! i)" using t1 a(3,4) by (auto simp: table_ok_def slots_ok_def)
        from slot_ok_data [OF this] e t obtain v' where "data (d1 ! i) = Some (k, v')"
          by auto
        then have "stored d1 k v'" using a(3,4) by (auto simp: stored_def)
        with s1 ne have "stored (Map_data m) k v'" by simp
        from stored_key [OF this] obtain j where
          "j < length (Map_data m)" "occupied (Map_data m ! j)" "slot_key (Map_data m ! j) = Some k"
          by blast
        with Cons.prems(6) [of t j] a(1,2) t show False by simp
      qed
      show "occ_count (Map_data ?m1) + occ_count ss < Map_capacity ?m1"
        using Cons.prems(7) True o1' by (simp add: occ_count_Cons)
    qed
    then obtain d' where
      r: "reinsert ss ?m1 = Some (?m1\<lparr>Map_data := d'\<rparr>)" "length d' = Map_capacity m"
        "table_ok hsh (Map_shift m) d'"
        "\<forall>k v. stored d' k v \<longleftrightarrow> stored d1 k v \<or> stored ss k v"
        "occ_count d' = occ_count d1 + occ_count ss"
      by auto
    have "reinsert (s # ss) m = Some (m\<lparr>Map_data := d'\<rparr>)" using h i r(1) by simp
    moreover have "stored d' k v \<longleftrightarrow> stored (Map_data m) k v \<or> stored (s # ss) k v" for k v
    proof (cases "k = key")
      case True
      have "\<not> stored ss key v'" for v'
      proof
        assume "stored ss key v'"
        from stored_key [OF this] obtain j where
          "j < length ss" "occupied (ss ! j)" "slot_key (ss ! j) = Some key" by blast
        with kd(2) [OF \<open>occupied s\<close>, of "ss ! j"] kv show False by simp
      qed
      then show ?thesis using r(4) s1 absent True kv \<open>occupied s\<close> by (auto simp: st)
    next
      case False
      then show ?thesis using r(4) s1 kv by (simp add: st)
    qed
    moreover have "occ_count d' = occ_count (Map_data m) + occ_count (s # ss)"
      using r(5) o1' True by (simp add: occ_count_Cons)
    ultimately show ?thesis using r(2,3) by blast
  qed
qed

subsection \<open>\<^verbatim>\<open>reserve\<close> and \<^verbatim>\<open>grow\<close>\<close>

lemma table_ok_empty: "table_ok hsh sh (replicate n Slot_default)"
  by (simp add: table_ok_def robin_hood_def slots_ok_def keys_distinct_def)

lemma stored_empty: "\<not> stored (replicate n Slot_default) k v"
  by (auto simp: stored_def)

lemma Map_wfI:
  "\<lbrakk>length (Map_data m) = Map_capacity m;
    0 < Map_capacity m \<Longrightarrow> Map_shift m = ctlz (Map_capacity m) + 1;
    Map_usable m = (Map_capacity m div 4) * 3;
    table_ok hsh (Map_shift m) (Map_data m);
    occ_count (Map_data m) \<le> Map_length m;
    Map_length m = 0 \<or> 2 \<le> Map_capacity m\<rbrakk> \<Longrightarrow> Map_wf hsh m"
  by (simp add: Map_wf_def)

text \<open>\<^verbatim>\<open>reserve\<close> with a larger capacity, on memory that the allocator has zeroed.\<close>

lemma Map_reserve_wf:
  assumes wf: "Map_wf hsh m" and n: "Map_capacity m < n"
  shows "\<exists>m'. Map_reserve zero_alloc n m = Some m' \<and> Map_wf hsh m' \<and>
           Map_capacity m' = n \<and> Map_length m' = Map_length m \<and>
           (\<forall>k v. stored (Map_data m') k v \<longleftrightarrow> stored (Map_data m) k v) \<and>
           occ_count (Map_data m') = occ_count (Map_data m)"
proof -
  let ?m1 = "m\<lparr>Map_capacity := n, Map_data := replicate n Slot_default,
                Map_usable := (n div 4) * 3, Map_shift := ctlz n + 1\<rparr>"
  have len: "length (Map_data m) = Map_capacity m"
    and tok: "table_ok hsh (Map_shift m) (Map_data m)"
    and occ: "occ_count (Map_data m) \<le> Map_length m"
    and two: "Map_length m = 0 \<or> 2 \<le> Map_capacity m"
    using wf by (simp_all add: Map_wf_def)
  have pos: "0 < n" using n by simp
  have "\<exists>d'. reinsert (Map_data m) ?m1 = Some (?m1\<lparr>Map_data := d'\<rparr>) \<and>
          length d' = Map_capacity ?m1 \<and> table_ok hsh (Map_shift ?m1) d' \<and>
          (\<forall>k v. stored d' k v \<longleftrightarrow> stored (Map_data ?m1) k v \<or> stored (Map_data m) k v) \<and>
          occ_count d' = occ_count (Map_data ?m1) + occ_count (Map_data m)"
  proof (rule reinsert_table [where hsh = hsh])
    show "length (Map_data ?m1) = Map_capacity ?m1" by simp
    show "table_ok hsh (Map_shift ?m1) (Map_data ?m1)" by (simp add: table_ok_empty)
    show "ideal (Map_shift ?m1) h < Map_capacity ?m1" for h
      using home_in_range [OF pos, of h] by simp
    show "slots_ok hsh (Map_data m)" "keys_distinct (Map_data m)"
      using tok by (simp_all add: table_ok_def)
    show "slot_key (Map_data ?m1 ! i) \<noteq> slot_key t"
      if "i < length (Map_data ?m1)" "occupied (Map_data ?m1 ! i)" for t :: "('a, 'b) slot" and i
      using that by simp
    show "occ_count (Map_data ?m1) + occ_count (Map_data m) < Map_capacity ?m1"
      using occ_count_le [of "Map_data m"] len n by (simp add: occ_count_replicate)
  qed
  then obtain d' where
    r: "reinsert (Map_data m) ?m1 = Some (?m1\<lparr>Map_data := d'\<rparr>)" "length d' = n"
      "table_ok hsh (ctlz n + 1) d'"
      "\<forall>k v. stored d' k v \<longleftrightarrow> stored (Map_data m) k v"
      "occ_count d' = occ_count (Map_data m)"
    by (auto simp: stored_empty occ_count_replicate)
  let ?m' = "?m1\<lparr>Map_data := d'\<rparr>"
  have "Map_reserve zero_alloc n m = Some ?m'"
    using n r(1) len by (simp add: Map_reserve_def Let_def zero_buffer)
  moreover have "Map_wf hsh ?m'"
    using r(2,3,5) occ two n by (intro Map_wfI) auto
  ultimately show ?thesis using r(4,5) by simp
qed

lemma Map_reserve_noop: "n \<le> Map_capacity m \<Longrightarrow> Map_reserve alloc n m = Some m"
  by (simp add: Map_reserve_def)

lemma Map_grow_wf:
  assumes wf: "Map_wf hsh m"
  shows "\<exists>m'. Map_grow zero_alloc m = Some m' \<and> Map_wf hsh m' \<and>
           Map_capacity m' = (if Map_capacity m \<noteq> 0 then 2 * Map_capacity m else 32) \<and>
           Map_length m' = Map_length m \<and>
           (\<forall>k v. stored (Map_data m') k v \<longleftrightarrow> stored (Map_data m) k v) \<and>
           occ_count (Map_data m') = occ_count (Map_data m)"
proof -
  have "Map_capacity m < (if Map_capacity m \<noteq> 0 then 2 * Map_capacity m else 32)" by simp
  from Map_reserve_wf [OF wf this] show ?thesis by (simp add: Map_grow_def Let_def)
qed

lemma Map_grow_times_wf:
  "Map_wf hsh m \<Longrightarrow>
   \<exists>m'. Map_grow_times zero_alloc t m = Some m' \<and> Map_wf hsh m' \<and>
     Map_capacity m \<le> Map_capacity m' \<and> Map_length m' = Map_length m \<and>
     (\<forall>k v. stored (Map_data m') k v \<longleftrightarrow> stored (Map_data m) k v) \<and>
     occ_count (Map_data m') = occ_count (Map_data m)"
proof (induction t arbitrary: m)
  case 0
  then show ?case by simp
next
  case (Suc t)
  from Map_grow_wf [OF Suc.prems] obtain m1 where
    g: "Map_grow zero_alloc m = Some m1" "Map_wf hsh m1"
      "Map_capacity m1 = (if Map_capacity m \<noteq> 0 then 2 * Map_capacity m else 32)"
      "Map_length m1 = Map_length m"
      "\<forall>k v. stored (Map_data m1) k v \<longleftrightarrow> stored (Map_data m) k v"
      "occ_count (Map_data m1) = occ_count (Map_data m)"
    by blast
  have le: "Map_capacity m \<le> Map_capacity m1" using g(3) by simp
  from Suc.IH [OF g(2)] obtain m' where
    r: "Map_grow_times zero_alloc t m1 = Some m'" "Map_wf hsh m'"
      "Map_capacity m1 \<le> Map_capacity m'" "Map_length m' = Map_length m1"
      "\<forall>k v. stored (Map_data m') k v \<longleftrightarrow> stored (Map_data m1) k v"
      "occ_count (Map_data m') = occ_count (Map_data m1)"
    by blast
  have "Map_grow_times zero_alloc (Suc t) m = Some m'" using g(1) r(1) by simp
  then show ?case using r g le by auto
qed

text \<open>Two maps that store the same pairs and have the same length answer alike.\<close>

lemma Map_try_get_cong:
  assumes "Map_wf hsh m" "Map_wf hsh m'"
    and "\<forall>k v. stored (Map_data m') k v \<longleftrightarrow> stored (Map_data m) k v"
  shows "Map_try_get hsh key m' = Map_try_get hsh key m"
proof -
  from Map_try_get_stored [OF assms(1), of key] obtain r where
    r: "Map_try_get hsh key m = Some r" "\<forall>v. r = Some v \<longleftrightarrow> stored (Map_data m) key v" by blast
  from Map_try_get_stored [OF assms(2), of key] obtain r' where
    r': "Map_try_get hsh key m' = Some r'" "\<forall>v. r' = Some v \<longleftrightarrow> stored (Map_data m') key v" by blast
  have "r' = r"
  proof (cases r)
    case None
    with r(2) r'(2) assms(3) show ?thesis by (cases r') auto
  next
    case (Some v)
    with r(2) r'(2) assms(3) show ?thesis by auto
  qed
  with r r' show ?thesis by simp
qed

lemma Map_default_wf: "Map_wf hsh Map_default"
  by (simp add: Map_wf_def Map_default_def table_ok_def robin_hood_def slots_ok_def
      keys_distinct_def occ_count_def)

lemma next_pow2_pos: "0 < next_pow2 n"
  by (simp add: next_pow2_def)

lemma Map_construct_wf: "Map_wf hsh (Map_construct zero_alloc n)"
  by (simp add: Map_wf_def Map_construct_def Let_def zero_buffer table_ok_empty
      occ_count_replicate)

lemma Map_clear_wf: "Map_wf hsh m \<Longrightarrow> Map_wf hsh (Map_clear m)"
  by (simp add: Map_wf_def Map_clear_def map_replicate_const table_ok_empty occ_count_replicate)

subsection \<open>\<^verbatim>\<open>insert\<close> on a well-formed map\<close>

lemma Slot_make_props:
  "occupied (Slot_make hsh key val)" "slot_ok hsh (Slot_make hsh key val)"
  "data (Slot_make hsh key val) = Some (key, val)"
  "slot_key (Slot_make hsh key val) = Some key"
  "hash (Slot_make hsh key val) = hash_key hsh key"
  by (simp_all add: Slot_make_def occupied_def hash_key_nonzero slot_ok_def slot_key_def)

lemma Map_full_small:
  assumes wf: "Map_wf hsh m" and nf: "\<not> Map_full m"
  shows "2 \<le> Map_capacity m"
proof (rule ccontr)
  assume "\<not> 2 \<le> Map_capacity m"
  then have "Map_capacity m div 4 = 0" "Map_length m = 0"
    using wf by (auto simp: Map_wf_def)
  then have "Map_full m" using wf by (simp add: Map_full_def Map_wf_def)
  with nf show False by simp
qed

text \<open>
  The step of \<^verbatim>\<open>insert\<close> before \<^verbatim>\<open>insert_slot\<close>: a map that is \<^verbatim>\<open>full()\<close> grows, and
  then has a free slot.
\<close>

lemma Map_insert_grow:
  assumes wf: "Map_wf hsh m"
  shows "\<exists>m1. (if Map_full m then Map_grow zero_alloc m else Some m) = Some m1 \<and>
           Map_wf hsh m1 \<and> 2 \<le> Map_capacity m1 \<and> Map_length m1 = Map_length m \<and>
           (\<forall>k v. stored (Map_data m1) k v \<longleftrightarrow> stored (Map_data m) k v) \<and>
           occ_count (Map_data m1) = occ_count (Map_data m) \<and>
           (if Map_full m then occ_count (Map_data m1) < Map_capacity m1 else m1 = m)"
proof (cases "Map_full m")
  case True
  from Map_grow_wf [OF wf] obtain m1 where
    g: "Map_grow zero_alloc m = Some m1" "Map_wf hsh m1"
      "Map_capacity m1 = (if Map_capacity m \<noteq> 0 then 2 * Map_capacity m else 32)"
      "Map_length m1 = Map_length m"
      "\<forall>k v. stored (Map_data m1) k v \<longleftrightarrow> stored (Map_data m) k v"
      "occ_count (Map_data m1) = occ_count (Map_data m)"
    by blast
  have "occ_count (Map_data m) \<le> Map_capacity m"
    using occ_count_le [of "Map_data m"] wf by (simp add: Map_wf_def)
  then have "occ_count (Map_data m1) < Map_capacity m1" "2 \<le> Map_capacity m1"
    using g(3,6) by (auto split: if_splits)
  then show ?thesis using True g by auto
next
  case False
  with Map_full_small [OF wf False] wf show ?thesis by simp
qed

text \<open>
  \<^verbatim>\<open>insert\<close> on a well-formed map. It does not return in one case only: \<^verbatim>\<open>full()\<close> is
  false, no slot is empty, and the key is new. Otherwise it returns, the map is
  well-formed, it stores the pair in place of any pair of that key, and \<^verbatim>\<open>length_\<close> is
  one more.
\<close>

lemma Map_insert_wf:
  assumes wf: "Map_wf hsh m"
  shows "if \<not> Map_full m \<and> occ_count (Map_data m) = Map_capacity m \<and>
            (\<forall>v. \<not> stored (Map_data m) key v)
         then Map_insert hsh zero_alloc key val m = None
         else \<exists>m' p. Map_insert hsh zero_alloc key val m = Some (m', p) \<and> Map_wf hsh m' \<and>
                Map_length m' = Map_length m + 1 \<and>
                (\<forall>k v. stored (Map_data m') k v \<longleftrightarrow>
                         (if k = key then v = val else stored (Map_data m) k v)) \<and>
                occ_count (Map_data m') =
                  occ_count (Map_data m) + (if \<exists>v. stored (Map_data m) key v then 0 else 1)"
proof -
  let ?s = "Slot_make hsh key val"
  from Map_insert_grow [OF wf] obtain m1 where
    g: "(if Map_full m then Map_grow zero_alloc m else Some m) = Some m1"
      "Map_wf hsh m1" "2 \<le> Map_capacity m1" "Map_length m1 = Map_length m"
      "\<forall>k v. stored (Map_data m1) k v \<longleftrightarrow> stored (Map_data m) k v"
      "occ_count (Map_data m1) = occ_count (Map_data m)"
      "if Map_full m then occ_count (Map_data m1) < Map_capacity m1 else m1 = m"
    by blast
  have len: "length (Map_data m1) = Map_capacity m1"
    and tok: "table_ok hsh (Map_shift m1) (Map_data m1)"
    and occ: "occ_count (Map_data m1) \<le> Map_length m1"
    and sh: "Map_shift m1 = ctlz (Map_capacity m1) + 1"
    and us: "Map_usable m1 = (Map_capacity m1 div 4) * 3"
    using g(2,3) by (auto simp: Map_wf_def)
  have home: "ideal (Map_shift m1) (hash ?s) < length (Map_data m1)"
    using Map_wf_home [OF g(2)] g(3) by simp
  have ins: "Map_insert hsh zero_alloc key val m =
       (case Map_insert_slot ?s m1 of None \<Rightarrow> None
        | Some (m2, placed) \<Rightarrow> Some (m2\<lparr>Map_length := Map_length m2 + 1\<rparr>, placed))"
    unfolding Map_insert_def g(1) by simp
  show ?thesis
  proof (cases "\<not> Map_full m \<and> occ_count (Map_data m) = Map_capacity m \<and>
            (\<forall>v. \<not> stored (Map_data m) key v)")
    case True
    then have m1: "m1 = m" using g(7) by simp
    have all: "occupied (Map_data m ! i)" if "i < length (Map_data m)" for i
      using occ_count_full [of "Map_data m" i] that True len m1 by simp
    have fw: "full_without (Map_capacity m)
                (Map_data m, ideal (Map_shift m) (hash ?s), 0, ?s, None)"
      unfolding full_without_def
    proof (simp add: Slot_make_props, intro conjI allI impI)
      show "Map_capacity m = length (Map_data m)" using len m1 by simp
      show "ideal (Map_shift m) (hash_key hsh key) < length (Map_data m)"
        using home m1 by (simp add: Slot_make_props)
      show "keys_distinct (Map_data m)" using tok m1 by (simp add: table_ok_def)
      show "occupied (Map_data m ! i)" if "i < length (Map_data m)" for i using all that .
      show "slot_key (Map_data m ! i) \<noteq> Some key" if i: "i < length (Map_data m)" for i
      proof
        assume "slot_key (Map_data m ! i) = Some key"
        then obtain v where "data (Map_data m ! i) = Some (key, v)"
          by (auto simp: slot_key_data)
        then have "stored (Map_data m) key v" using i all by (auto simp: stored_def)
        with True show False by simp
      qed
    qed
    have "insert_slot_loop (Map_shift m) (Map_capacity m)
            (Map_data m, ideal (Map_shift m) (hash ?s), 0, ?s, None) = None"
    proof (cases "insert_slot_loop (Map_shift m) (Map_capacity m)
            (Map_data m, ideal (Map_shift m) (hash ?s), 0, ?s, None)")
      case None
      then show ?thesis .
    next
      case (Some r)
      from insert_slot_loop_full [OF this] fw show ?thesis by simp
    qed
    then have "Map_insert_slot ?s m = None" by (simp add: Map_insert_slot_def)
    then show ?thesis using True ins m1 by simp
  next
    case False
    have room: "(\<forall>v. \<not> stored (Map_data m1) key v) \<longrightarrow>
                occ_count (Map_data m1) < length (Map_data m1)"
    proof (cases "Map_full m")
      case True
      then show ?thesis using g(7) len by simp
    next
      case nf: False
      then have "m1 = m" using g(7) by simp
      then show ?thesis using False nf occ_count_le [of "Map_data m"] len by auto
    qed
    from Map_insert_slot_table [OF len tok Slot_make_props(1,2,3) home room]
    obtain d' p where
      i: "Map_insert_slot ?s m1 = Some (m1\<lparr>Map_data := d'\<rparr>, p)"
      and r: "length d' = length (Map_data m1)" "table_ok hsh (Map_shift m1) d'"
        "\<forall>k v. stored d' k v \<longleftrightarrow> (if k = key then v = val else stored (Map_data m1) k v)"
        "occ_count d' = occ_count (Map_data m1) + (if \<exists>v. stored (Map_data m1) key v then 0 else 1)"
      by blast
    let ?m' = "m1\<lparr>Map_data := d', Map_length := Map_length m1 + 1\<rparr>"
    have res: "Map_insert hsh zero_alloc key val m = Some (?m', p)"
      using ins i by simp
    have "Map_wf hsh ?m'"
      using r(1,2,4) len sh us occ g(3) by (intro Map_wfI) auto
    moreover have "Map_length ?m' = Map_length m + 1" using g(4) by simp
    moreover have "\<forall>k v. stored (Map_data ?m') k v \<longleftrightarrow>
                         (if k = key then v = val else stored (Map_data m) k v)"
      using r(3) g(5) by simp
    moreover have "occ_count (Map_data ?m') =
                  occ_count (Map_data m) + (if \<exists>v. stored (Map_data m) key v then 0 else 1)"
      using r(4) g(5,6) by simp
    ultimately show ?thesis using False res by (simp del: One_nat_def)
  qed
qed

subsection \<open>\<^verbatim>\<open>try_erase\<close> on a well-formed map\<close>

lemma slot_key_default: "slot_key Slot_default = None"
  by (simp add: slot_key_def Slot_default_def)

lemma keys_distinct_erase:
  assumes kd: "keys_distinct d" and so: "slots_ok hsh d"
  shows "keys_distinct (d[p := Slot_default])"
proof (rule keys_distinct_update [OF kd], intro allI impI)
  fix i assume i: "i < length d" "occupied (d ! i)"
  from slot_ok_data [OF slots_okD [OF so i]] 
  show "slot_key (d ! i) \<noteq> slot_key Slot_default" by (auto simp: slot_key_default)
qed

lemma stored_erase:
  assumes kd: "keys_distinct d" and p: "p < length d" "occupied (d ! p)" "slot_key (d ! p) = Some key"
  shows "stored (d[p := Slot_default]) k v \<longleftrightarrow> k \<noteq> key \<and> stored d k v"
proof
  assume "stored (d[p := Slot_default]) k v"
  then obtain i where i: "i < length d" "i \<noteq> p" "occupied (d ! i)" "data (d ! i) = Some (k, v)"
    using stored_update [OF p(1), of Slot_default k v] by auto
  have "k \<noteq> key"
  proof
    assume "k = key"
    then have "slot_key (d ! i) = slot_key (d ! p)" using i(4) p(3) by (auto simp: slot_key_def)
    from keys_distinctD [OF kd i(1) p(1) i(3) p(2) this] i(2) show False by simp
  qed
  moreover have "stored d k v" using i by (auto simp: stored_def)
  ultimately show "k \<noteq> key \<and> stored d k v" by simp
next
  assume a: "k \<noteq> key \<and> stored d k v"
  then obtain i where i: "i < length d" "occupied (d ! i)" "data (d ! i) = Some (k, v)"
    by (auto simp: stored_def)
  have "i \<noteq> p" using i(3) p(3) a by (auto simp: slot_key_def)
  then show "stored (d[p := Slot_default]) k v"
    using stored_update [OF p(1), of Slot_default k v] i by auto
qed

text \<open>
  \<^verbatim>\<open>try_erase\<close> on a well-formed map returns; the flag tells whether the key was stored,
  the map is well-formed afterwards and stores what it stored, but for the key.
\<close>

lemma Map_try_erase_wf:
  assumes wf: "Map_wf hsh m"
  shows "\<exists>b m'. Map_try_erase hsh key m = Some (b, m') \<and> Map_wf hsh m' \<and>
           (b \<longleftrightarrow> (\<exists>v. stored (Map_data m) key v)) \<and>
           (if b then Map_length m' + 1 = Map_length m \<and>
                      occ_count (Map_data m') + 1 = occ_count (Map_data m)
            else m' = m) \<and>
           (\<forall>k v. stored (Map_data m') k v \<longleftrightarrow> k \<noteq> key \<and> stored (Map_data m) k v)"
proof (cases "Map_empty m")
  case True
  then have "occ_count (Map_data m) = 0" using wf by (simp add: Map_wf_def Map_empty_def)
  then have "\<not> stored (Map_data m) k v" for k v
    using occ_count_zero [of "Map_data m"] by (auto simp: stored_def)
  then show ?thesis using True wf by (auto simp: Map_try_erase_def)
next
  case False
  let ?d = "Map_data m" and ?sh = "Map_shift m" and ?h = "hash_key hsh key"
  have two: "2 \<le> Map_capacity m" using wf False by (auto simp: Map_wf_def Map_empty_def)
  have len: "length ?d = Map_capacity m"
    and tok: "table_ok hsh ?sh ?d"
    and occ: "occ_count ?d \<le> Map_length m"
    and sh: "?sh = ctlz (Map_capacity m) + 1"
    and us: "Map_usable m = (Map_capacity m div 4) * 3"
    using wf two by (auto simp: Map_wf_def)
  have rh: "robin_hood ?sh ?d" and so: "slots_ok hsh ?d" and kd: "keys_distinct ?d"
    using tok by (simp_all add: table_ok_def)
  have home: "ideal ?sh ?h < length ?d" using Map_wf_home [OF wf] two by simp
  have "\<exists>r. try_erase_loop ?sh (length ?d) ?d ?h key ((ideal ?sh ?h + 0) mod length ?d) 0 = Some r \<and>
        (case r of
           Some p \<Rightarrow> p < length ?d \<and> occupied (?d ! p) \<and> slot_key (?d ! p) = Some key
         | None \<Rightarrow> \<forall>v. \<not> stored ?d key v)"
    by (rule try_erase_loop_correct [OF tok home]) simp_all
  then obtain r where
    l: "try_erase_loop ?sh (Map_capacity m) ?d ?h key (ideal ?sh ?h) 0 = Some r"
    and r: "case r of
           Some p \<Rightarrow> p < length ?d \<and> occupied (?d ! p) \<and> slot_key (?d ! p) = Some key
         | None \<Rightarrow> \<forall>v. \<not> stored ?d key v"
    using home len by auto
  show ?thesis
  proof (cases r)
    case None
    then have ab: "\<forall>v. \<not> stored ?d key v" using r by simp
    have "Map_try_erase hsh key m = Some (False, m)"
      using False l None by (simp add: Map_try_erase_def Let_def)
    moreover have "stored ?d k v \<longleftrightarrow> k \<noteq> key \<and> stored ?d k v" for k v using ab by auto
    ultimately show ?thesis using wf ab by auto
  next
    case (Some p)
    then have p: "p < length ?d" "occupied (?d ! p)" "slot_key (?d ! p) = Some key"
      using r by simp_all
    let ?e = "?d[p := Slot_default]"
    have "\<exists>d'. fix_up_loop ?sh (Map_capacity m) ?e p = Some d' \<and> length d' = Map_capacity m \<and>
            table_ok hsh ?sh d' \<and> (\<forall>k v. stored d' k v \<longleftrightarrow> stored ?e k v) \<and>
            occ_count d' = occ_count ?e"
    proof (rule fix_up_loop_ok [where y = "Map_data m ! p"])
      show "Map_capacity m = length ?e" using len by simp
      show "2 \<le> Map_capacity m" using two .
      show "p < Map_capacity m" using p(1) len by simp
      show "\<not> occupied (?e ! p)" using p(1) by simp
      show "slots_ok hsh ?e" by (rule slots_ok_update [OF so]) simp
      show "keys_distinct ?e" by (rule keys_distinct_erase [OF kd so])
      have "(Map_data m)[p := Slot_default, p := Map_data m ! p] = Map_data m" by simp
      then show "robin_hood (Map_shift m) ((Map_data m)[p := Slot_default, p := Map_data m ! p])"
        using rh by (simp only:)
    qed
    then obtain d' where
      f: "fix_up_loop ?sh (Map_capacity m) ?e p = Some d'" "length d' = Map_capacity m"
        "table_ok hsh ?sh d'" "\<forall>k v. stored d' k v \<longleftrightarrow> stored ?e k v"
        "occ_count d' = occ_count ?e"
      by blast
    let ?m' = "m\<lparr>Map_data := d', Map_length := Map_length m - 1\<rparr>"
    have res: "Map_try_erase hsh key m = Some (True, ?m')"
      using False l Some f(1) by (simp add: Map_try_erase_def Let_def)
    have o: "occ_count ?e + 1 = occ_count ?d"
      using occ_count_update [OF p(1), of Slot_default] p(2) by simp
    have lpos: "0 < Map_length m" using False by (simp add: Map_empty_def)
    have "Map_wf hsh ?m'"
      using f(2,3,5) o sh us occ two by (intro Map_wfI) auto
    moreover obtain v where "data (?d ! p) = Some (key, v)"
      using p(3) by (auto simp: slot_key_data)
    then have "\<exists>v. stored ?d key v" using p(1,2) by (auto simp: stored_def)
    moreover have "\<forall>k v. stored (Map_data ?m') k v \<longleftrightarrow> k \<noteq> key \<and> stored ?d k v"
      using f(4) stored_erase [OF kd p] by simp
    moreover have "Map_length ?m' + 1 = Map_length m" using lpos by simp
    moreover have "occ_count (Map_data ?m') + 1 = occ_count ?d" using f(5) o by simp
    ultimately show ?thesis using res by (auto simp del: One_nat_def)
  qed
qed

subsection \<open>The invariant after insert and erase\<close>

text \<open>
  C4, as the source has it. On a well-formed map \<^verbatim>\<open>insert\<close> returns unless \<^verbatim>\<open>full()\<close> is
  false, no slot is empty and the key is new; \<^verbatim>\<open>try_erase\<close> and \<^verbatim>\<open>try_get\<close> always
  return. The map that \<^verbatim>\<open>insert\<close> or \<^verbatim>\<open>try_erase\<close> leaves is well-formed again, so its
  table keeps the invariant \<open>robin_hood\<close>: every occupied slot that is not at its ideal
  index comes after an occupied slot whose displacement is at most one less. The table
  stores the inserted pair in place of any pair of that key, or no pair of the erased key,
  and otherwise what it stored; \<^verbatim>\<open>try_get\<close> finds exactly the pairs that are stored. The
  default map and a constructed map on zeroed memory are well-formed.
\<close>

theorem Map_ops_keep_robin_hood:
  assumes wf: "Map_wf hsh (m :: ('k, 'v) map_rec)"
  shows "(if \<not> Map_full m \<and> occ_count (Map_data m) = Map_capacity m \<and>
             (\<forall>v. \<not> stored (Map_data m) key v)
          then Map_insert hsh zero_alloc key val m = None
          else \<exists>m' p. Map_insert hsh zero_alloc key val m = Some (m', p) \<and> Map_wf hsh m' \<and>
                 robin_hood (Map_shift m') (Map_data m') \<and>
                 (\<forall>k v. stored (Map_data m') k v \<longleftrightarrow>
                          (if k = key then v = val else stored (Map_data m) k v))) \<and>
         (\<exists>b m'. Map_try_erase hsh key m = Some (b, m') \<and> Map_wf hsh m' \<and>
                 robin_hood (Map_shift m') (Map_data m') \<and>
                 (b \<longleftrightarrow> (\<exists>v. stored (Map_data m) key v)) \<and>
                 (\<forall>k v. stored (Map_data m') k v \<longleftrightarrow> k \<noteq> key \<and> stored (Map_data m) k v)) \<and>
         (\<exists>r. Map_try_get hsh key m = Some r \<and> (\<forall>v. r = Some v \<longleftrightarrow> stored (Map_data m) key v)) \<and>
         Map_wf hsh (Map_default :: ('k, 'v) map_rec) \<and>
         Map_wf hsh (Map_construct zero_alloc n :: ('k, 'v) map_rec)"
proof -
  have rh: "robin_hood (Map_shift m') (Map_data m')" if "Map_wf hsh m'" for m' :: "('k, 'v) map_rec"
    using that by (simp add: Map_wf_def table_ok_def)
  have "if \<not> Map_full m \<and> occ_count (Map_data m) = Map_capacity m \<and>
             (\<forall>v. \<not> stored (Map_data m) key v)
          then Map_insert hsh zero_alloc key val m = None
          else \<exists>m' p. Map_insert hsh zero_alloc key val m = Some (m', p) \<and> Map_wf hsh m' \<and>
                 robin_hood (Map_shift m') (Map_data m') \<and>
                 (\<forall>k v. stored (Map_data m') k v \<longleftrightarrow>
                          (if k = key then v = val else stored (Map_data m) k v))"
    using Map_insert_wf [OF wf, of key val] rh by (auto split: if_splits)
  moreover have "\<exists>b m'. Map_try_erase hsh key m = Some (b, m') \<and> Map_wf hsh m' \<and>
                 robin_hood (Map_shift m') (Map_data m') \<and>
                 (b \<longleftrightarrow> (\<exists>v. stored (Map_data m) key v)) \<and>
                 (\<forall>k v. stored (Map_data m') k v \<longleftrightarrow> k \<noteq> key \<and> stored (Map_data m) k v)"
    using Map_try_erase_wf [OF wf, of key] rh by blast
  ultimately show ?thesis
    using Map_try_get_stored [OF wf, of key] Map_default_wf [of hsh] Map_construct_wf [of hsh n]
    by blast
qed

lemma then_insert_wf:
  assumes "pred_option (Map_wf hsh) mo"
  shows "pred_option (Map_wf hsh) (then_insert hsh zero_alloc k v mo)"
proof (cases "then_insert hsh zero_alloc k v mo")
  case None
  then show ?thesis by simp
next
  case (Some m')
  then obtain m p where m: "mo = Some m" "Map_insert hsh zero_alloc k v m = Some (m', p)"
    by (auto simp: then_insert_def Option.bind_eq_Some_conv)
  then have "Map_wf hsh m" using assms by simp
  from Map_insert_wf [OF this, of k v] m(2) have "Map_wf hsh m'"
    by (auto split: if_splits)
  with Some show ?thesis by simp
qed

lemma example_map_wf: "Map_wf example_hash example_map"
proof -
  have "pred_option (Map_wf example_hash) (Some (Map_construct zero_alloc 8 :: (nat, nat) map_rec))"
    by (simp add: Map_construct_wf)
  from then_insert_wf [OF then_insert_wf [OF then_insert_wf [OF this, of 0 1], of 8 3], of 2 5]
  show ?thesis unfolding example_table_reached example_map_def by simp
qed

text \<open>
  The theorem at the map that three inserts leave (keys 0 and 8 at home in slot 0, key 2 in
  slot 2): a fourth insert of key 16 and the erase of key 0.
\<close>

theorem Map_ops_keep_robin_hood_witness:
  "Map_wf example_hash example_map \<and>
   (\<exists>m' p. Map_insert example_hash zero_alloc 16 7 example_map = Some (m', p) \<and>
      Map_wf example_hash m' \<and> robin_hood (Map_shift m') (Map_data m') \<and>
      stored (Map_data m') 16 7 \<and> stored (Map_data m') 8 3) \<and>
   (\<exists>m'. Map_try_erase example_hash 0 example_map = Some (True, m') \<and>
      Map_wf example_hash m' \<and> robin_hood (Map_shift m') (Map_data m') \<and>
      stored (Map_data m') 8 3 \<and> \<not> stored (Map_data m') 0 1) \<and>
   Map_try_get example_hash 8 example_map = Some (Some 3)"
proof -
  have wf: "Map_wf example_hash example_map" by (rule example_map_wf)
  have c: "occ_count (Map_data example_map) \<noteq> Map_capacity example_map" by code_simp
  have s: "stored (Map_data example_map) 8 3" "stored (Map_data example_map) 0 1"
    unfolding stored_def by (rule exI [of _ 1], code_simp) (rule exI [of _ 0], code_simp)
  have g: "Map_try_get example_hash 8 example_map = Some (Some 3)" by code_simp
  from Map_ops_keep_robin_hood [OF wf, of 16 7 0] c
  have i: "\<exists>m' p. Map_insert example_hash zero_alloc 16 7 example_map = Some (m', p) \<and>
      Map_wf example_hash m' \<and> robin_hood (Map_shift m') (Map_data m') \<and>
      (\<forall>k v. stored (Map_data m') k v \<longleftrightarrow>
          (if k = 16 then v = 7 else stored (Map_data example_map) k v))"
    by simp
  from Map_ops_keep_robin_hood [OF wf, of 0 7 0]
  have e: "\<exists>b m'. Map_try_erase example_hash 0 example_map = Some (b, m') \<and>
      Map_wf example_hash m' \<and> robin_hood (Map_shift m') (Map_data m') \<and>
      (b \<longleftrightarrow> (\<exists>v. stored (Map_data example_map) 0 v)) \<and>
      (\<forall>k v. stored (Map_data m') k v \<longleftrightarrow> k \<noteq> 0 \<and> stored (Map_data example_map) k v)"
    by simp
  from i s have i': "\<exists>m' p. Map_insert example_hash zero_alloc 16 7 example_map = Some (m', p) \<and>
      Map_wf example_hash m' \<and> robin_hood (Map_shift m') (Map_data m') \<and>
      stored (Map_data m') 16 7 \<and> stored (Map_data m') 8 3"
    by auto
  from e s have e': "\<exists>m'. Map_try_erase example_hash 0 example_map = Some (True, m') \<and>
      Map_wf example_hash m' \<and> robin_hood (Map_shift m') (Map_data m') \<and>
      stored (Map_data m') 8 3 \<and> \<not> stored (Map_data m') 0 1"
    by auto
  from wf i' e' g show ?thesis by blast
qed

text \<open>
  The displacements of a scan can drop. After the inserts of the keys 0, 8 and 2 into a
  map of 8 slots, the scan from slot 0, the ideal index of key 0, meets the displacements
  0, 1, 0 before the first empty slot: key 8 is one slot from home, key 2 is at home behind
  it. All three keys are found.
\<close>

theorem displacements_decrease_counterexample:
  "then_insert example_hash zero_alloc 2 5
     (then_insert example_hash zero_alloc 8 3
       (then_insert example_hash zero_alloc 0 1 (Some (Map_construct zero_alloc 8))))
     = Some example_map \<and>
   ideal (Map_shift example_map) (hash (Map_data example_map ! 0)) = 0 \<and>
   scan_displacements (Map_shift example_map) 0 (Map_data example_map) = [0, 1, 0] \<and>
   \<not> claimed_balance (Map_shift example_map) (Map_data example_map) \<and>
   Map_try_get example_hash 0 example_map = Some (Some 1) \<and>
   Map_try_get example_hash 8 example_map = Some (Some 3) \<and>
   Map_try_get example_hash 2 example_map = Some (Some 5)"
  by code_simp

subsection \<open>Runs of operations\<close>

lemma Map_insert_slot_fields:
  "Map_insert_slot s m = Some (m', p) \<Longrightarrow>
   Map_capacity m' = Map_capacity m \<and> Map_usable m' = Map_usable m \<and>
   Map_length m' = Map_length m \<and> Map_shift m' = Map_shift m"
  by (auto simp: Map_insert_slot_def split: option.splits)

lemma Map_insert_capacity:
  assumes wf: "Map_wf hsh m" and i: "Map_insert hsh zero_alloc key val m = Some (m', p)"
  shows "Map_capacity m' =
           (if Map_full m then (if Map_capacity m \<noteq> 0 then 2 * Map_capacity m else 32)
            else Map_capacity m)"
proof -
  from i obtain m1 m2 where
    g: "(if Map_full m then Map_grow zero_alloc m else Some m) = Some m1"
    and s: "Map_insert_slot (Slot_make hsh key val) m1 = Some (m2, p)"
    and m': "m' = m2\<lparr>Map_length := Map_length m2 + 1\<rparr>"
    by (auto simp: Map_insert_def split: option.splits)
  have "Map_capacity m1 =
           (if Map_full m then (if Map_capacity m \<noteq> 0 then 2 * Map_capacity m else 32)
            else Map_capacity m)"
    using g Map_grow_wf [OF wf] by (auto split: if_splits)
  with Map_insert_slot_fields [OF s] m' show ?thesis by simp
qed

lemma Map_try_erase_capacity:
  "Map_try_erase hsh key m = Some (b, m') \<Longrightarrow> Map_capacity m' = Map_capacity m"
  by (auto simp: Map_try_erase_def Let_def split: if_splits option.splits)

lemma usable_grows:
  "(c::nat) \<noteq> 1 \<Longrightarrow> (c div 4) * 3 < ((if c \<noteq> 0 then 2 * c else 32) div 4) * 3"
proof (cases "c = 0")
  case True
  then show ?thesis by simp
next
  case False
  assume "c \<noteq> 1"
  with False have "c div 4 < (2 * c) div 4" by presburger
  with False show ?thesis by simp
qed

lemma usable_le: "((c::nat) div 4) * 3 \<le> c"
  by arith

lemma Map_wf_usable: "Map_wf hsh m \<Longrightarrow> Map_usable m = (Map_capacity m div 4) * 3"
  by (simp add: Map_wf_def)

lemma Map_wf_occ: "Map_wf hsh m \<Longrightarrow> occ_count (Map_data m) \<le> Map_length m"
  by (simp add: Map_wf_def)

text \<open>
  A map whose \<^verbatim>\<open>length_\<close> has not passed \<^verbatim>\<open>usable_\<close> and whose capacity is not 1 stays
  so under every operation but \<^verbatim>\<open>reserve(1)\<close>, every operation returns on it, and the pairs
  it stores follow the operations.
\<close>

lemma Map_apply_roomy:
  assumes ro: "Map_roomy hsh m" and x: "x \<noteq> Do_reserve 1"
    and f: "\<forall>k v. stored (Map_data m) k v \<longleftrightarrow> f k = Some v"
  shows "\<exists>m'. Map_apply hsh zero_alloc x m = Some m' \<and> Map_roomy hsh m' \<and>
           (\<forall>k v. stored (Map_data m') k v \<longleftrightarrow> entries_op x f k = Some v)"
proof -
  have wf: "Map_wf hsh m" and c1: "Map_capacity m \<noteq> 1" and lu: "Map_length m \<le> Map_usable m"
    using ro by (simp_all add: Map_roomy_def)
  note us = Map_wf_usable [OF wf]
  show ?thesis
  proof (cases x)
    case (Do_insert key val)
    have ret: "\<not> (\<not> Map_full m \<and> occ_count (Map_data m) = Map_capacity m \<and>
                 (\<forall>v. \<not> stored (Map_data m) key v))"
    proof
      assume a: "\<not> Map_full m \<and> occ_count (Map_data m) = Map_capacity m \<and>
                 (\<forall>v. \<not> stored (Map_data m) key v)"
      then have "Map_length m < Map_usable m" using lu by (simp add: Map_full_def)
      then have "occ_count (Map_data m) < Map_capacity m"
        using Map_wf_occ [OF wf] us usable_le [of "Map_capacity m"] by linarith
      with a show False by simp
    qed
    from Map_insert_wf [OF wf, of key val] ret obtain m' p where
      i: "Map_insert hsh zero_alloc key val m = Some (m', p)" "Map_wf hsh m'"
        "Map_length m' = Map_length m + 1"
        "\<forall>k v. stored (Map_data m') k v \<longleftrightarrow> (if k = key then v = val else stored (Map_data m) k v)"
      by auto
    note cap = Map_insert_capacity [OF wf i(1)]
    note us' = Map_wf_usable [OF i(2)]
    have "Map_capacity m' \<noteq> 1" using cap c1 by (auto split: if_splits)
    moreover have "Map_length m' \<le> Map_usable m'"
    proof (cases "Map_full m")
      case True
      then have "Map_length m = (Map_capacity m div 4) * 3" using us by (simp add: Map_full_def)
      with usable_grows [OF c1] True cap us' i(3) show ?thesis by simp
    next
      case False
      then have "Map_length m < Map_usable m" using lu by (simp add: Map_full_def)
      with False cap us us' i(3) show ?thesis by simp
    qed
    moreover have "\<forall>k v. stored (Map_data m') k v \<longleftrightarrow> entries_op x f k = Some v"
      using i(4) f Do_insert by auto
    ultimately show ?thesis using i(1,2) Do_insert by (simp add: Map_roomy_def)
  next
    case (Do_try_erase key)
    from Map_try_erase_wf [OF wf, of key] obtain b m' where
      e: "Map_try_erase hsh key m = Some (b, m')" "Map_wf hsh m'"
        "if b then Map_length m' + 1 = Map_length m \<and>
                   occ_count (Map_data m') + 1 = occ_count (Map_data m)
         else m' = m"
        "\<forall>k v. stored (Map_data m') k v \<longleftrightarrow> k \<noteq> key \<and> stored (Map_data m) k v"
      by blast
    note cap = Map_try_erase_capacity [OF e(1)]
    have "Map_usable m' = Map_usable m" using Map_wf_usable [OF e(2)] us cap by simp
    moreover have "Map_length m' \<le> Map_length m" using e(3) by (auto split: if_splits)
    moreover have "\<forall>k v. stored (Map_data m') k v \<longleftrightarrow> entries_op x f k = Some v"
      using e(4) f Do_try_erase by auto
    ultimately show ?thesis using e(1,2) cap c1 lu Do_try_erase by (simp add: Map_roomy_def)
  next
    case Do_grow
    from Map_grow_wf [OF wf] obtain m' where
      g: "Map_grow zero_alloc m = Some m'" "Map_wf hsh m'"
        "Map_capacity m' = (if Map_capacity m \<noteq> 0 then 2 * Map_capacity m else 32)"
        "Map_length m' = Map_length m"
        "\<forall>k v. stored (Map_data m') k v \<longleftrightarrow> stored (Map_data m) k v"
      by blast
    have "Map_length m' \<le> Map_usable m'"
      using usable_grows [OF c1] g(3,4) lu us Map_wf_usable [OF g(2)] by simp
    moreover have "Map_capacity m' \<noteq> 1" using g(3) by (auto split: if_splits)
    ultimately show ?thesis using g f Do_grow by (simp add: Map_roomy_def)
  next
    case (Do_reserve n)
    show ?thesis
    proof (cases "n \<le> Map_capacity m")
      case True
      then show ?thesis using ro f Do_reserve by (simp add: Map_reserve_noop)
    next
      case False
      then have n: "Map_capacity m < n" by simp
      from Map_reserve_wf [OF wf n] obtain m' where
        r: "Map_reserve zero_alloc n m = Some m'" "Map_wf hsh m'" "Map_capacity m' = n"
          "Map_length m' = Map_length m"
          "\<forall>k v. stored (Map_data m') k v \<longleftrightarrow> stored (Map_data m) k v"
        by blast
      have "Map_capacity m div 4 \<le> n div 4" using n by (intro div_le_mono) simp
      then have "Map_length m' \<le> Map_usable m'"
        using r(3,4) lu us Map_wf_usable [OF r(2)] by simp
      moreover have "Map_capacity m' \<noteq> 1" using r(3) x Do_reserve by simp
      ultimately show ?thesis using r f Do_reserve by (simp add: Map_roomy_def)
    qed
  next
    case Do_clear
    have "\<not> stored (Map_data (Map_clear m)) k v" for k v
      by (simp add: Map_clear_def map_replicate_const stored_empty)
    moreover have "Map_roomy hsh (Map_clear m)"
      using Map_clear_wf [OF wf] c1 by (simp add: Map_roomy_def) (simp add: Map_clear_def)
    ultimately show ?thesis using Do_clear by simp
  qed
qed

lemma Map_run_roomy:
  "\<lbrakk>Map_roomy hsh m; Do_reserve 1 \<notin> set xs;
    \<forall>k v. stored (Map_data m) k v \<longleftrightarrow> f k = Some v\<rbrakk>
   \<Longrightarrow> \<exists>m'. Map_run hsh zero_alloc xs m = Some m' \<and> Map_roomy hsh m' \<and>
          (\<forall>k v. stored (Map_data m') k v \<longleftrightarrow> fold entries_op xs f k = Some v)"
proof (induction xs arbitrary: m f)
  case Nil
  then show ?case by simp
next
  case (Cons x xs)
  have "x \<noteq> Do_reserve 1" using Cons.prems(2) by auto
  from Map_apply_roomy [OF Cons.prems(1) this Cons.prems(3)] obtain m1 where
    a: "Map_apply hsh zero_alloc x m = Some m1" "Map_roomy hsh m1"
      "\<forall>k v. stored (Map_data m1) k v \<longleftrightarrow> entries_op x f k = Some v"
    by blast
  have "Do_reserve 1 \<notin> set xs" using Cons.prems(2) by simp
  from Cons.IH [OF a(2) this a(3)] a(1) show ?case by simp
qed

lemma Map_try_get_entries:
  assumes wf: "Map_wf hsh m" and f: "\<forall>k v. stored (Map_data m) k v \<longleftrightarrow> f k = Some v"
  shows "Map_try_get hsh key m = Some (f key)"
proof -
  from Map_try_get_stored [OF wf, of key] obtain r where
    r: "Map_try_get hsh key m = Some r" "\<forall>v. r = Some v \<longleftrightarrow> stored (Map_data m) key v" by blast
  have "r = f key"
  proof (cases r)
    case None
    with r(2) f show ?thesis by (cases "f key") auto
  next
    case (Some v)
    with r(2) have "stored (Map_data m) key v" by blast
    with f have "f key = Some v" by simp
    with Some show ?thesis by simp
  qed
  with r(1) show ?thesis by simp
qed

lemma Map_default_roomy: "Map_roomy hsh Map_default"
  by (simp add: Map_roomy_def Map_default_wf) (simp add: Map_default_def)

lemma stored_default: "\<not> stored (Map_data Map_default) k v"
  by (simp add: stored_def Map_default_def)

lemma Map_run_default:
  assumes "Do_reserve 1 \<notin> set xs"
  shows "\<exists>m'. Map_run hsh zero_alloc xs Map_default = Some m' \<and> Map_wf hsh m' \<and>
           (\<forall>k. Map_try_get hsh k m' = Some (entries xs k))"
proof -
  have "\<forall>k v. stored (Map_data (Map_default :: ('a, 'b) map_rec)) k v \<longleftrightarrow> Map.empty k = Some v"
    by (simp add: stored_default)
  from Map_run_roomy [OF Map_default_roomy [of hsh] assms this] obtain m' where
    r: "Map_run hsh zero_alloc xs Map_default = Some m'" "Map_roomy hsh m'"
      "\<forall>k v. stored (Map_data m') k v \<longleftrightarrow> entries xs k = Some v"
    by (auto simp: entries_def)
  have wf: "Map_wf hsh m'" using r(2) by (simp add: Map_roomy_def)
  from Map_try_get_entries [OF wf r(3)] r(1) wf show ?thesis by blast
qed

subsection \<open>Growth keeps the entries\<close>

text \<open>
  Everything above holds for every allocator that hands out zeroed memory: the operations
  read a fresh buffer and nothing else of the allocator.
\<close>

lemma raw_buffer_zeroed:
  assumes "\<forall>n i. i < n \<longrightarrow> alloc n i = Slot_default"
  shows "raw_buffer alloc n = raw_buffer zero_alloc n"
  using assms by (simp add: raw_buffer_def zero_alloc_def)

lemma Map_reserve_zeroed:
  assumes "\<forall>n i. i < n \<longrightarrow> alloc n i = Slot_default"
  shows "Map_reserve alloc n m = Map_reserve zero_alloc n m"
  by (simp add: Map_reserve_def raw_buffer_zeroed [OF assms])

lemma Map_grow_zeroed:
  assumes "\<forall>n i. i < n \<longrightarrow> alloc n i = Slot_default"
  shows "Map_grow alloc m = Map_grow zero_alloc m"
  by (simp add: Map_grow_def Map_reserve_zeroed [OF assms])

lemma Map_grow_times_zeroed:
  assumes "\<forall>n i. i < n \<longrightarrow> alloc n i = Slot_default"
  shows "Map_grow_times alloc t m = Map_grow_times zero_alloc t m"
  by (induction t arbitrary: m) (simp_all add: Map_grow_zeroed [OF assms] cong: Option.bind_cong)

lemma Map_insert_zeroed:
  assumes "\<forall>n i. i < n \<longrightarrow> alloc n i = Slot_default"
  shows "Map_insert hsh alloc key val m = Map_insert hsh zero_alloc key val m"
  by (simp add: Map_insert_def Map_grow_zeroed [OF assms])

lemma Map_apply_zeroed:
  assumes "\<forall>n i. i < n \<longrightarrow> alloc n i = Slot_default"
  shows "Map_apply hsh alloc x m = Map_apply hsh zero_alloc x m"
  by (cases x)
    (simp_all add: Map_insert_zeroed [OF assms] Map_grow_zeroed [OF assms]
      Map_reserve_zeroed [OF assms])

lemma Map_run_zeroed:
  assumes "\<forall>n i. i < n \<longrightarrow> alloc n i = Slot_default"
  shows "Map_run hsh alloc xs m = Map_run hsh zero_alloc xs m"
  by (induction xs arbitrary: m) (simp_all add: Map_apply_zeroed [OF assms] cong: Option.bind_cong)

text \<open>The capacity after \<open>t\<close> calls of \<^verbatim>\<open>grow\<close>: doubled \<open>t\<close> times, from 32 when it was 0.\<close>

lemma Map_grow_times_capacity:
  assumes "Map_wf hsh m" "Map_grow_times zero_alloc t m = Some m'"
  shows "Map_capacity m' = ((\<lambda>c. if c \<noteq> 0 then 2 * c else 32) ^^ t) (Map_capacity m)"
proof -
  define f :: "nat \<Rightarrow> nat" where "f = (\<lambda>c. if c \<noteq> 0 then 2 * c else 32)"
  have "Map_wf hsh m \<Longrightarrow> Map_grow_times zero_alloc t m = Some m' \<Longrightarrow>
        Map_capacity m' = (f ^^ t) (Map_capacity m)" for m
  proof (induction t arbitrary: m)
    case 0
    then show ?case by simp
  next
    case (Suc t)
    from Map_grow_wf [OF Suc.prems(1)] obtain m1 where
      g: "Map_grow zero_alloc m = Some m1" "Map_wf hsh m1"
        "Map_capacity m1 = (if Map_capacity m \<noteq> 0 then 2 * Map_capacity m else 32)"
      by blast
    have c: "Map_capacity m1 = f (Map_capacity m)" using g(3) by (simp add: f_def)
    from Suc.prems(2) g(1) have "Map_grow_times zero_alloc t m1 = Some m'" by simp
    from Suc.IH [OF g(2) this] have "Map_capacity m' = (f ^^ t) (f (Map_capacity m))"
      by (simp only: c)
    then show ?case by (simp only: funpow_Suc_right comp_apply)
  qed
  from this [OF assms] show ?thesis by (simp only: f_def)
qed

text \<open>
  C7, for an allocator that hands out zeroed memory. \<^verbatim>\<open>reserve(n)\<close> with \<open>n\<close> at most the
  capacity leaves the map as it is, whatever the allocator. On a well-formed map,
  \<^verbatim>\<open>reserve\<close> with a larger \<open>n\<close> returns a map of capacity \<open>n\<close>, and \<open>t\<close> calls of \<^verbatim>\<open>grow\<close>
  return a map whose capacity has doubled \<open>t\<close> times (from 32 when it was 0). Either map is
  well-formed, with the same \<^verbatim>\<open>length_\<close>, as many occupied slots, no two of them with the
  same key, and the same stored pairs; \<^verbatim>\<open>try_get\<close> answers for every key what it answered
  before, which is the stored value. And every run of inserts, erases, grows, reserves and
  clears from the default map, \<^verbatim>\<open>reserve(1)\<close> apart, returns, and \<^verbatim>\<open>try_get\<close> then finds
  for every key the value of its last insert that no erase or clear has removed since.
\<close>

theorem Map_grow_keeps_entries:
  assumes wf: "Map_wf hsh m"
    and zeroed: "\<forall>n i. i < n \<longrightarrow> alloc n i = Slot_default"
  shows "(n \<le> Map_capacity m \<longrightarrow> Map_reserve any_alloc n m = Some m) \<and>
         (Map_capacity m < n \<longrightarrow>
            (\<exists>m'. Map_reserve alloc n m = Some m' \<and> Map_wf hsh m' \<and>
               Map_capacity m' = n \<and> Map_length m' = Map_length m \<and>
               occ_count (Map_data m') = occ_count (Map_data m) \<and>
               (\<forall>k v. stored (Map_data m') k v \<longleftrightarrow> stored (Map_data m) k v) \<and>
               (\<forall>k. Map_try_get hsh k m' = Map_try_get hsh k m))) \<and>
         (\<exists>m'. Map_grow_times alloc t m = Some m' \<and> Map_wf hsh m' \<and>
            Map_capacity m' = ((\<lambda>c. if c \<noteq> 0 then 2 * c else 32) ^^ t) (Map_capacity m) \<and>
            Map_length m' = Map_length m \<and>
            occ_count (Map_data m') = occ_count (Map_data m) \<and>
            (\<forall>k v. stored (Map_data m') k v \<longleftrightarrow> stored (Map_data m) k v) \<and>
            (\<forall>k. Map_try_get hsh k m' = Map_try_get hsh k m)) \<and>
         (\<forall>k. \<exists>r. Map_try_get hsh k m = Some r \<and> (\<forall>v. r = Some v \<longleftrightarrow> stored (Map_data m) k v)) \<and>
         (Do_reserve 1 \<notin> set xs \<longrightarrow>
            (\<exists>m'. Map_run hsh alloc xs Map_default = Some m' \<and> Map_wf hsh m' \<and>
               (\<forall>k. Map_try_get hsh k m' = Some (entries xs k))))"
proof -
  have a: "n \<le> Map_capacity m \<longrightarrow> Map_reserve any_alloc n m = Some m"
    by (simp add: Map_reserve_noop)
  have b: "\<exists>m'. Map_reserve alloc n m = Some m' \<and> Map_wf hsh m' \<and>
               Map_capacity m' = n \<and> Map_length m' = Map_length m \<and>
               occ_count (Map_data m') = occ_count (Map_data m) \<and>
               (\<forall>k v. stored (Map_data m') k v \<longleftrightarrow> stored (Map_data m) k v) \<and>
               (\<forall>k. Map_try_get hsh k m' = Map_try_get hsh k m)"
    if n: "Map_capacity m < n"
  proof -
    from Map_reserve_wf [OF wf n] obtain m' where
      r: "Map_reserve zero_alloc n m = Some m'" "Map_wf hsh m'" "Map_capacity m' = n"
        "Map_length m' = Map_length m"
        "\<forall>k v. stored (Map_data m') k v \<longleftrightarrow> stored (Map_data m) k v"
        "occ_count (Map_data m') = occ_count (Map_data m)"
      by blast
    have "Map_try_get hsh k m' = Map_try_get hsh k m" for k
      by (rule Map_try_get_cong [OF wf r(2,5)])
    with r show ?thesis unfolding Map_reserve_zeroed [OF zeroed] by blast
  qed
  have c: "\<exists>m'. Map_grow_times alloc t m = Some m' \<and> Map_wf hsh m' \<and>
            Map_capacity m' = ((\<lambda>c. if c \<noteq> 0 then 2 * c else 32) ^^ t) (Map_capacity m) \<and>
            Map_length m' = Map_length m \<and>
            occ_count (Map_data m') = occ_count (Map_data m) \<and>
            (\<forall>k v. stored (Map_data m') k v \<longleftrightarrow> stored (Map_data m) k v) \<and>
            (\<forall>k. Map_try_get hsh k m' = Map_try_get hsh k m)"
  proof -
    from Map_grow_times_wf [OF wf, of t] obtain m' where
      r: "Map_grow_times zero_alloc t m = Some m'" "Map_wf hsh m'"
        "Map_capacity m \<le> Map_capacity m'" "Map_length m' = Map_length m"
        "\<forall>k v. stored (Map_data m') k v \<longleftrightarrow> stored (Map_data m) k v"
        "occ_count (Map_data m') = occ_count (Map_data m)"
      by blast
    note cap = Map_grow_times_capacity [OF wf r(1)]
    have "Map_try_get hsh k m' = Map_try_get hsh k m" for k
      by (rule Map_try_get_cong [OF wf r(2,5)])
    with r cap show ?thesis unfolding Map_grow_times_zeroed [OF zeroed] by blast
  qed
  have d: "\<forall>k. \<exists>r. Map_try_get hsh k m = Some r \<and> (\<forall>v. r = Some v \<longleftrightarrow> stored (Map_data m) k v)"
    using Map_try_get_stored [OF wf] by blast
  have e: "Do_reserve 1 \<notin> set xs \<longrightarrow>
            (\<exists>m'. Map_run hsh alloc xs Map_default = Some m' \<and> Map_wf hsh m' \<and>
               (\<forall>k. Map_try_get hsh k m' = Some (entries xs k)))"
    unfolding Map_run_zeroed [OF zeroed] using Map_run_default [of xs hsh] by blast
  from a b c d e show ?thesis by blast
qed

text \<open>
  The theorem at the map with the keys 0, 8 and 2: \<^verbatim>\<open>reserve(8)\<close>, \<^verbatim>\<open>reserve(20)\<close> and three
  calls of \<^verbatim>\<open>grow\<close>; and at the run \<open>example_ops\<close>.
\<close>

theorem Map_grow_keeps_entries_witness:
  "Map_wf example_hash example_map \<and>
   8 \<le> Map_capacity example_map \<and>
   Map_reserve one_stale 8 example_map = Some example_map \<and>
   Map_capacity example_map < 20 \<and>
   (\<exists>m'. Map_reserve zero_alloc 20 example_map = Some m' \<and> Map_capacity m' = 20 \<and>
      Map_try_get example_hash 0 m' = Some (Some 1) \<and>
      Map_try_get example_hash 8 m' = Some (Some 3) \<and>
      Map_try_get example_hash 2 m' = Some (Some 5) \<and>
      Map_try_get example_hash 16 m' = Some None) \<and>
   (\<exists>m'. Map_grow_times zero_alloc 3 example_map = Some m' \<and> Map_capacity m' = 64 \<and>
      Map_length m' = 3 \<and> occ_count (Map_data m') = 3 \<and>
      Map_try_get example_hash 0 m' = Some (Some 1) \<and>
      Map_try_get example_hash 8 m' = Some (Some 3) \<and>
      Map_try_get example_hash 2 m' = Some (Some 5) \<and>
      Map_try_get example_hash 16 m' = Some None) \<and>
   Do_reserve 1 \<notin> set example_ops \<and>
   (\<exists>m'. Map_run example_hash zero_alloc example_ops Map_default = Some m' \<and>
      Map_try_get example_hash 0 m' = Some None \<and>
      Map_try_get example_hash 8 m' = Some (Some 4) \<and>
      Map_try_get example_hash 2 m' = Some (Some 5))"
proof -
  have wf: "Map_wf example_hash example_map" by (rule example_map_wf)
  have z: "\<forall>n i. i < n \<longrightarrow> zero_alloc n i = (Slot_default :: (nat, nat) slot)"
    by (simp add: zero_alloc_def)
  have c: "8 \<le> Map_capacity example_map" "Map_capacity example_map < 20"
    "Map_length example_map = 3" "occ_count (Map_data example_map) = 3"
    "((\<lambda>c. if c \<noteq> 0 then 2 * c else 32) ^^ 3) (Map_capacity example_map) = (64::nat)"
    by code_simp+
  have g: "Map_try_get example_hash 0 example_map = Some (Some 1)"
    "Map_try_get example_hash 8 example_map = Some (Some 3)"
    "Map_try_get example_hash 2 example_map = Some (Some 5)"
    "Map_try_get example_hash 16 example_map = Some None"
    by code_simp+
  note t = Map_grow_keeps_entries [OF wf z, of 8 one_stale 3 example_ops]
  note u = Map_grow_keeps_entries [OF wf z, of 20 one_stale 3 example_ops]
  from t c(1) have r1: "Map_reserve one_stale 8 example_map = Some example_map" by blast
  from u c(2)
  have "\<exists>m'. Map_reserve zero_alloc 20 example_map = Some m' \<and> Map_capacity m' = 20 \<and>
      (\<forall>k. Map_try_get example_hash k m' = Map_try_get example_hash k example_map)"
    by blast
  with g have r2: "\<exists>m'. Map_reserve zero_alloc 20 example_map = Some m' \<and> Map_capacity m' = 20 \<and>
      Map_try_get example_hash 0 m' = Some (Some 1) \<and>
      Map_try_get example_hash 8 m' = Some (Some 3) \<and>
      Map_try_get example_hash 2 m' = Some (Some 5) \<and>
      Map_try_get example_hash 16 m' = Some None"
    by auto
  from t
  have "\<exists>m'. Map_grow_times zero_alloc 3 example_map = Some m' \<and>
      Map_capacity m' = ((\<lambda>c. if c \<noteq> 0 then 2 * c else 32) ^^ 3) (Map_capacity example_map) \<and>
      Map_length m' = Map_length example_map \<and>
      occ_count (Map_data m') = occ_count (Map_data example_map) \<and>
      (\<forall>k. Map_try_get example_hash k m' = Map_try_get example_hash k example_map)"
    by blast
  with g c(3,4,5) have r3: "\<exists>m'. Map_grow_times zero_alloc 3 example_map = Some m' \<and>
      Map_capacity m' = 64 \<and> Map_length m' = 3 \<and> occ_count (Map_data m') = 3 \<and>
      Map_try_get example_hash 0 m' = Some (Some 1) \<and>
      Map_try_get example_hash 8 m' = Some (Some 3) \<and>
      Map_try_get example_hash 2 m' = Some (Some 5) \<and>
      Map_try_get example_hash 16 m' = Some None"
    by auto
  have x: "Do_reserve 1 \<notin> set example_ops" by (simp add: example_ops_def)
  have en: "entries example_ops 0 = None" "entries example_ops 8 = Some 4"
    "entries example_ops 2 = Some 5"
    by (simp_all add: entries_def example_ops_def)
  from t x
  have "\<exists>m'. Map_run example_hash zero_alloc example_ops Map_default = Some m' \<and>
      (\<forall>k. Map_try_get example_hash k m' = Some (entries example_ops k))"
    by blast
  with en have r4: "\<exists>m'. Map_run example_hash zero_alloc example_ops Map_default = Some m' \<and>
      Map_try_get example_hash 0 m' = Some None \<and>
      Map_try_get example_hash 8 m' = Some (Some 4) \<and>
      Map_try_get example_hash 2 m' = Some (Some 5)"
    by auto
  from wf c(1,2) r1 r2 r3 x r4 show ?thesis by blast
qed

text \<open>
  C7 as the claim states it, for every allocator. \<^verbatim>\<open>reserve\<close> allocates the new buffer and
  inserts into it; it never writes \<^verbatim>\<open>EMPTY_SLOT\<close> into it. With the allocator \<open>one_stale\<close>,
  whose memory reads as key 0 with value 77 in cell 2, \<^verbatim>\<open>grow()\<close> on the map with the keys
  0, 8 and 2 leaves a table of 16 slots with four occupied slots for \<^verbatim>\<open>length_\<close> 3, two of
  them with key 0. After \<^verbatim>\<open>try_erase(0)\<close>, which returns true, \<^verbatim>\<open>try_get(0)\<close> finds the
  key again, with the value 77; on zeroed memory it finds nothing.
\<close>

theorem Map_grow_stale_memory_counterexample:
  "occ_count (Map_data example_map) = 3 \<and>
   Map_try_get example_hash 0 example_map = Some (Some 1) \<and>
   map_option (\<lambda>m'. (Map_capacity m', Map_length m', occ_count (Map_data m'),
                      Map_data m' ! 0, Map_data m' ! 1, Map_data m' ! 2))
     (Map_grow one_stale example_map)
     = Some (16, 3, 4, Slot_make example_hash 0 1, Slot_make example_hash 8 3,
             Slot_make example_hash 0 77) \<and>
   Option.bind (Map_grow one_stale example_map)
       (\<lambda>m'. Option.bind (Map_try_erase example_hash 0 m')
          (\<lambda>r. map_option (\<lambda>g. (fst r, g)) (Map_try_get example_hash 0 (snd r))))
     = Some (True, Some 77) \<and>
   Option.bind (Map_grow zero_alloc example_map)
       (\<lambda>m'. Option.bind (Map_try_erase example_hash 0 m')
          (\<lambda>r. map_option (\<lambda>g. (fst r, g)) (Map_try_get example_hash 0 (snd r))))
     = Some (True, None)"
proof -
  have "occ_count (Map_data example_map) = 3" by code_simp
  moreover have "Map_try_get example_hash 0 example_map = Some (Some 1)" by code_simp
  moreover have "map_option (\<lambda>m'. (Map_capacity m', Map_length m', occ_count (Map_data m'),
                      Map_data m' ! 0, Map_data m' ! 1, Map_data m' ! 2))
     (Map_grow one_stale example_map)
     = Some (16, 3, 4, Slot_make example_hash 0 1, Slot_make example_hash 8 3,
             Slot_make example_hash 0 77)"
    by code_simp
  moreover have "Option.bind (Map_grow one_stale example_map)
       (\<lambda>m'. Option.bind (Map_try_erase example_hash 0 m')
          (\<lambda>r. map_option (\<lambda>g. (fst r, g)) (Map_try_get example_hash 0 (snd r))))
     = Some (True, Some 77)"
    by code_simp
  moreover have "Option.bind (Map_grow zero_alloc example_map)
       (\<lambda>m'. Option.bind (Map_try_erase example_hash 0 m')
          (\<lambda>r. map_option (\<lambda>g. (fst r, g)) (Map_try_get example_hash 0 (snd r))))
     = Some (True, None)"
    by code_simp
  ultimately show ?thesis by blast
qed

text \<open>
  A run with \<^verbatim>\<open>reserve(1)\<close> that does not return: the third insert finds no empty slot in a
  table of two slots that never grew.
\<close>

lemma Map_run_snoc:
  "Map_run hsh alloc (xs @ [x]) m = Option.bind (Map_run hsh alloc xs m) (Map_apply hsh alloc x)"
proof (induction xs arbitrary: m)
  case Nil
  then show ?case by (cases "Map_apply hsh alloc x m") simp_all
next
  case (Cons y ys)
  then show ?case by (cases "Map_apply hsh alloc y m") simp_all
qed

lemma reserve_one_run_no_return:
  "Map_run example_hash zero_alloc [Do_reserve 1, Do_insert 0 1, Do_insert 1 1, Do_insert 2 1]
     (Map_default :: (nat, nat) map_rec) = None"
proof -
  have i: "Option.bind mo (Map_apply example_hash zero_alloc (Do_insert k v))
           = then_insert example_hash zero_alloc k v mo" for k v and mo :: "(nat, nat) map_rec option"
    by (cases mo) (simp_all add: then_insert_def)
  have n: "then_insert example_hash zero_alloc 2 1
          (then_insert example_hash zero_alloc 1 1 tiny_map) = None"
    unfolding full_table_reached using third_slot_no_return
    by (simp add: then_insert_def Map_insert_def Map_full_def third_slot_def)
  have r: "Map_run example_hash zero_alloc [Do_reserve 1] Map_default
           = Map_reserve zero_alloc 1 (Map_default :: (nat, nat) map_rec)"
    by (cases "Map_reserve zero_alloc 1 (Map_default :: (nat, nat) map_rec)") simp_all
  have "Map_run example_hash zero_alloc
          ((([Do_reserve 1] @ [Do_insert 0 1]) @ [Do_insert 1 1]) @ [Do_insert 2 1])
          (Map_default :: (nat, nat) map_rec)
        = then_insert example_hash zero_alloc 2 1
            (then_insert example_hash zero_alloc 1 1 tiny_map)"
    unfolding Map_run_snoc i r tiny_map_def ..
  with n show ?thesis by simp
qed

section \<open>Properties of the heap\<close>

lemma heap_ordered_iff:
  "heap_ordered h \<longleftrightarrow> (\<forall>i. 0 < i \<and> i < Heap_length h \<longrightarrow> Heap_data h ! ((i - 1) div 2) \<le> Heap_data h ! i)"
  by (auto simp: heap_ordered_def)

lemma Heap_swap_fields [simp]:
  "Heap_length (Heap_swap a b h) = Heap_length h"
  "Heap_capacity (Heap_swap a b h) = Heap_capacity h"
  "length (Heap_data (Heap_swap a b h)) = length (Heap_data h)"
  by (simp_all add: Heap_swap_def Let_def)

lemma Heap_swap_nth:
  "a < length (Heap_data h) \<Longrightarrow> b < length (Heap_data h) \<Longrightarrow> i < length (Heap_data h) \<Longrightarrow>
   Heap_data (Heap_swap a b h) ! i =
     (if i = b then Heap_data h ! a else if i = a then Heap_data h ! b else Heap_data h ! i)"
  by (simp add: Heap_swap_def Let_def nth_list_update)

lemma Heap_swap_held:
  assumes "a < Heap_length h" "b < Heap_length h" "Heap_length h \<le> length (Heap_data h)"
  shows "held (Heap_swap a b h) = held h"
proof -
  let ?xs = "take (Heap_length h) (Heap_data h)"
  have "take (Heap_length h) ((Heap_data h)[a := Heap_data h ! b, b := Heap_data h ! a])
        = ?xs[a := ?xs ! b, b := ?xs ! a]"
    using assms by (simp add: take_update_swap)
  moreover have "mset (?xs[a := ?xs ! b, b := ?xs ! a]) = mset ?xs"
    using assms by (intro mset_swap) simp_all
  ultimately show ?thesis by (simp add: held_def Heap_swap_def Let_def)
qed

lemma Heap_swap_wf [simp]: "Heap_wf (Heap_swap a b h) = Heap_wf h"
  by (simp add: Heap_wf_def)

subsection \<open>Sifting up\<close>

lemma reheap_up_fields:
  "Heap_length (reheap_up k h) = Heap_length h \<and>
   Heap_capacity (reheap_up k h) = Heap_capacity h \<and>
   length (Heap_data (reheap_up k h)) = length (Heap_data h)"
proof (induction k h rule: reheap_up.induct)
  case (1 idx h)
  show ?case
    using 1 by (subst (1 2 3) reheap_up.simps) (simp add: Let_def)
qed

lemma reheap_up_held:
  "k < Heap_length h \<Longrightarrow> Heap_length h \<le> length (Heap_data h) \<Longrightarrow> held (reheap_up k h) = held h"
proof (induction k h rule: reheap_up.induct)
  case (1 idx h)
  show ?case
  proof (cases "idx \<noteq> 0 \<and> Heap_data h ! idx < Heap_data h ! ((idx - 1) div 2)")
    case True
    then have p: "(idx - 1) div 2 < Heap_length h" using 1(2) by linarith
    have "held (reheap_up ((idx - 1) div 2) (Heap_swap idx ((idx - 1) div 2) h))
          = held (Heap_swap idx ((idx - 1) div 2) h)"
      using 1(1) [OF _ refl refl refl] True p 1(3) by simp
    also have "\<dots> = held h" using Heap_swap_held [OF 1(2) p 1(3)] .
    finally show ?thesis using True by (subst reheap_up.simps) (simp add: Let_def)
  next
    case False
    then show ?thesis by (subst reheap_up.simps) (auto simp: Let_def)
  qed
qed

lemma up_inv_swap:
  assumes inv: "up_inv k h" and k: "k < Heap_length h" "0 < k"
    and len: "Heap_length h \<le> length (Heap_data h)"
    and lt: "Heap_data h ! k < Heap_data h ! ((k - 1) div 2)"
  shows "up_inv ((k - 1) div 2) (Heap_swap k ((k - 1) div 2) h)"
proof -
  let ?p = "(k - 1) div 2"
  let ?a = "Heap_data h"
  let ?h' = "Heap_swap k ?p h"
  have p: "?p < k" using k by linarith
  have nth: "\<And>i. i < Heap_length h \<Longrightarrow>
      Heap_data ?h' ! i = (if i = ?p then ?a ! k else if i = k then ?a ! ?p else ?a ! i)"
    using Heap_swap_nth [of k h ?p] k p len by auto
  have A: "\<And>i. 0 < i \<Longrightarrow> i < Heap_length h \<Longrightarrow> i \<noteq> k \<Longrightarrow> ?a ! ((i - 1) div 2) \<le> ?a ! i"
    using inv by (simp add: up_inv_def)
  have B: "\<And>i. 0 < i \<Longrightarrow> i < Heap_length h \<Longrightarrow> (i - 1) div 2 = k \<Longrightarrow> ?a ! ?p \<le> ?a ! i"
    using inv k by (simp add: up_inv_def)
  show ?thesis
    unfolding up_inv_def
  proof (intro conjI allI impI)
    fix i assume i: "0 < i \<and> i < Heap_length ?h' \<and> i \<noteq> ?p"
    then have il: "i < Heap_length h" and i0: "0 < i" and ip: "i \<noteq> ?p" by simp_all
    have pil: "(i - 1) div 2 < Heap_length h" using il by linarith
    have pi_ne: "(i - 1) div 2 \<noteq> i" using i0 by linarith
    show "Heap_data ?h' ! ((i - 1) div 2) \<le> Heap_data ?h' ! i"
    proof (cases "i = k")
      case True
      then show ?thesis using nth [OF il] nth [OF pil] lt p by auto
    next
      case ik: False
      show ?thesis
      proof (cases "(i - 1) div 2 = k")
        case True
        then show ?thesis using nth [OF il] nth [OF pil] ik ip B [OF i0 il True] p by auto
      next
        case nk: False
        show ?thesis
        proof (cases "(i - 1) div 2 = ?p")
          case True
          have "?a ! ?p \<le> ?a ! i" using A [OF i0 il ik] True by simp
          then show ?thesis using nth [OF il] nth [OF pil] ik ip True lt by auto
        next
          case False
          then show ?thesis using nth [OF il] nth [OF pil] ik ip nk A [OF i0 il ik] by auto
        qed
      qed
    qed
  next
    fix i assume i: "0 < i \<and> i < Heap_length ?h' \<and> (i - 1) div 2 = ?p \<and> 0 < ?p"
    then have il: "i < Heap_length h" and i0: "0 < i" and ip: "(i - 1) div 2 = ?p" and p0: "0 < ?p"
      by simp_all
    let ?g = "(?p - 1) div 2"
    have g: "?g < ?p" using p0 by linarith
    have gl: "?g < Heap_length h" using g p k by linarith
    have pl: "?p < Heap_length h" using p k by linarith
    have gp: "?a ! ?g \<le> ?a ! ?p" using A [OF p0 pl] p by simp
    have ine: "i \<noteq> ?p" using ip i0 by linarith
    show "Heap_data ?h' ! ?g \<le> Heap_data ?h' ! i"
    proof (cases "i = k")
      case True
      then show ?thesis using nth [OF il] nth [OF gl] g p gp by auto
    next
      case False
      have "?a ! ?p \<le> ?a ! i" using A [OF i0 il False] ip by simp
      then show ?thesis using nth [OF il] nth [OF gl] g p gp False ine by auto
    qed
  qed
qed

lemma reheap_up_ordered:
  "up_inv k h \<Longrightarrow> k < Heap_length h \<Longrightarrow> Heap_length h \<le> length (Heap_data h) \<Longrightarrow>
   heap_ordered (reheap_up k h)"
proof (induction k h rule: reheap_up.induct)
  case (1 idx h)
  show ?case
  proof (cases "idx = 0")
    case True
    then show ?thesis using 1(2)
      by (subst reheap_up.simps) (auto simp: heap_ordered_iff up_inv_def)
  next
    case nz: False
    show ?thesis
    proof (cases "Heap_data h ! idx < Heap_data h ! ((idx - 1) div 2)")
      case True
      have p: "(idx - 1) div 2 < Heap_length h" using 1(3) by linarith
      have "up_inv ((idx - 1) div 2) (Heap_swap idx ((idx - 1) div 2) h)"
        using up_inv_swap [OF 1(2) 1(3) _ 1(4) True] nz by simp
      then have "heap_ordered (reheap_up ((idx - 1) div 2) (Heap_swap idx ((idx - 1) div 2) h))"
        using 1(1) [OF _ refl refl refl] nz True p 1(4) by simp
      then show ?thesis using nz True by (subst reheap_up.simps) (simp add: Let_def)
    next
      case False
      have "\<forall>i. 0 < i \<and> i < Heap_length h \<longrightarrow> Heap_data h ! ((i - 1) div 2) \<le> Heap_data h ! i"
      proof (intro allI impI)
        fix i assume "0 < i \<and> i < Heap_length h"
        then show "Heap_data h ! ((i - 1) div 2) \<le> Heap_data h ! i"
          using 1(2) False by (cases "i = idx") (auto simp: up_inv_def)
      qed
      then show ?thesis using nz False
        by (subst reheap_up.simps) (simp add: Let_def heap_ordered_iff)
    qed
  qed
qed

subsection \<open>Sifting down\<close>

lemma reheap_down_fields:
  "Heap_length (reheap_down k h) = Heap_length h \<and>
   Heap_capacity (reheap_down k h) = Heap_capacity h \<and>
   length (Heap_data (reheap_down k h)) = length (Heap_data h)"
proof (induction k h rule: reheap_down.induct)
  case (1 idx h)
  show ?case
    using 1 by (subst (1 2 3) reheap_down.simps) (simp add: Let_def)
qed

lemma reheap_down_left:
  "idx * 2 + 1 + 1 < Heap_length h \<Longrightarrow>
   Heap_data h ! (idx * 2 + 1) < Heap_data h ! idx \<and>
     \<not> Heap_data h ! (idx * 2 + 1 + 1) < Heap_data h ! (idx * 2 + 1) \<Longrightarrow>
   reheap_down idx h = reheap_down (idx * 2 + 1) (Heap_swap idx (idx * 2 + 1) h)"
  by (subst reheap_down.simps) (simp add: Let_def)

lemma reheap_down_right:
  "idx * 2 + 1 + 1 < Heap_length h \<Longrightarrow>
   \<not> (Heap_data h ! (idx * 2 + 1) < Heap_data h ! idx \<and>
     \<not> Heap_data h ! (idx * 2 + 1 + 1) < Heap_data h ! (idx * 2 + 1)) \<Longrightarrow>
   Heap_data h ! (idx * 2 + 1 + 1) < Heap_data h ! idx \<and>
     \<not> Heap_data h ! (idx * 2 + 1) < Heap_data h ! (idx * 2 + 1 + 1) \<Longrightarrow>
   reheap_down idx h = reheap_down (idx * 2 + 1 + 1) (Heap_swap idx (idx * 2 + 1 + 1) h)"
  by (subst reheap_down.simps) (auto simp: Let_def)

lemma reheap_down_neither:
  "idx * 2 + 1 + 1 < Heap_length h \<Longrightarrow>
   \<not> (Heap_data h ! (idx * 2 + 1) < Heap_data h ! idx \<and>
     \<not> Heap_data h ! (idx * 2 + 1 + 1) < Heap_data h ! (idx * 2 + 1)) \<Longrightarrow>
   \<not> (Heap_data h ! (idx * 2 + 1 + 1) < Heap_data h ! idx \<and>
     \<not> Heap_data h ! (idx * 2 + 1) < Heap_data h ! (idx * 2 + 1 + 1)) \<Longrightarrow>
   reheap_down idx h = h"
  by (subst reheap_down.simps) (auto simp: Let_def)

lemma reheap_down_only_left:
  "\<not> idx * 2 + 1 + 1 < Heap_length h \<Longrightarrow> idx * 2 + 1 < Heap_length h \<Longrightarrow>
   reheap_down idx h =
     (if Heap_data h ! (idx * 2 + 1) < Heap_data h ! idx then Heap_swap idx (idx * 2 + 1) h else h)"
  by (subst reheap_down.simps) (simp add: Let_def)

lemma reheap_down_leaf:
  "\<not> idx * 2 + 1 + 1 < Heap_length h \<Longrightarrow> \<not> idx * 2 + 1 < Heap_length h \<Longrightarrow>
   reheap_down idx h = h"
  by (subst reheap_down.simps) (simp add: Let_def)

lemma reheap_down_held:
  "k < Heap_length h \<Longrightarrow> Heap_length h \<le> length (Heap_data h) \<Longrightarrow> held (reheap_down k h) = held h"
proof (induction k h rule: reheap_down.induct)
  case (1 idx h)
  let ?l = "idx * 2 + 1"
  let ?r = "?l + 1"
  note ih1 = 1(1) [OF refl refl refl _ refl refl]
  note ih2 = 1(2) [OF refl refl refl _ refl refl]
  show ?case
  proof (cases "?r < Heap_length h")
    case r: True
    then have l: "?l < Heap_length h" by simp
    show ?thesis
    proof (cases "Heap_data h ! ?l < Heap_data h ! idx \<and> \<not> Heap_data h ! ?r < Heap_data h ! ?l")
      case True
      have "held (reheap_down ?l (Heap_swap idx ?l h)) = held (Heap_swap idx ?l h)"
        using ih1 r True l 1(4) by simp
      also have "\<dots> = held h" using Heap_swap_held [OF 1(3) l 1(4)] .
      finally show ?thesis by (simp only: reheap_down_left [OF r True])
    next
      case nl: False
      show ?thesis
      proof (cases "Heap_data h ! ?r < Heap_data h ! idx \<and> \<not> Heap_data h ! ?l < Heap_data h ! ?r")
        case True
        have "held (reheap_down ?r (Heap_swap idx ?r h)) = held (Heap_swap idx ?r h)"
          using ih2 r nl True 1(4) by simp
        also have "\<dots> = held h" using Heap_swap_held [OF 1(3) r 1(4)] .
        finally show ?thesis by (simp only: reheap_down_right [OF r nl True])
      next
        case False
        show ?thesis by (simp only: reheap_down_neither [OF r nl False])
      qed
    qed
  next
    case nr: False
    show ?thesis
    proof (cases "?l < Heap_length h")
      case True
      show ?thesis using Heap_swap_held [OF 1(3) True 1(4)]
        by (simp add: reheap_down_only_left [OF nr True])
    next
      case False
      show ?thesis by (simp only: reheap_down_leaf [OF nr False])
    qed
  qed
qed

lemma down_inv_swap:
  assumes inv: "down_inv k h" and c: "c < Heap_length h" "(c - 1) div 2 = k" "0 < c"
    and len: "Heap_length h \<le> length (Heap_data h)"
    and lt: "Heap_data h ! c < Heap_data h ! k"
    and sib: "\<And>i. 0 < i \<Longrightarrow> i < Heap_length h \<Longrightarrow> (i - 1) div 2 = k \<Longrightarrow> Heap_data h ! c \<le> Heap_data h ! i"
  shows "down_inv c (Heap_swap k c h)"
proof -
  let ?a = "Heap_data h"
  let ?h' = "Heap_swap k c h"
  have kc: "k < c" using c by linarith
  have kl: "k < Heap_length h" using kc c by linarith
  have nth: "\<And>i. i < Heap_length h \<Longrightarrow>
      Heap_data ?h' ! i = (if i = c then ?a ! k else if i = k then ?a ! c else ?a ! i)"
    using Heap_swap_nth [of k h c] c kl len by auto
  have A: "\<And>i. 0 < i \<Longrightarrow> i < Heap_length h \<Longrightarrow> (i - 1) div 2 \<noteq> k \<Longrightarrow> ?a ! ((i - 1) div 2) \<le> ?a ! i"
    using inv by (simp add: down_inv_def)
  have B: "\<And>i. 0 < i \<Longrightarrow> i < Heap_length h \<Longrightarrow> (i - 1) div 2 = k \<Longrightarrow> 0 < k \<Longrightarrow> ?a ! ((k - 1) div 2) \<le> ?a ! i"
    using inv by (simp add: down_inv_def)
  show ?thesis
    unfolding down_inv_def
  proof (intro conjI allI impI)
    fix i assume i: "0 < i \<and> i < Heap_length ?h' \<and> (i - 1) div 2 \<noteq> c"
    then have il: "i < Heap_length h" and i0: "0 < i" and ipc: "(i - 1) div 2 \<noteq> c" by simp_all
    have pil: "(i - 1) div 2 < Heap_length h" using il by linarith
    have pi_lt: "(i - 1) div 2 < i" using i0 by linarith
    show "Heap_data ?h' ! ((i - 1) div 2) \<le> Heap_data ?h' ! i"
    proof (cases "(i - 1) div 2 = k")
      case True
      then have "?a ! c \<le> ?a ! i" using sib [OF i0 il] by simp
      then show ?thesis using nth [OF il] nth [OF pil] True lt kc pi_lt by auto
    next
      case nk: False
      have ic: "i \<noteq> c" using nk c by auto
      show ?thesis
      proof (cases "i = k")
        case True
        then have k0: "0 < k" using i0 by simp
        have "?a ! ((k - 1) div 2) \<le> ?a ! c" using B [OF c(3) c(1) c(2) k0] .
        then show ?thesis using nth [OF il] nth [OF pil] True nk ipc pi_lt kc by auto
      next
        case False
        then show ?thesis using nth [OF il] nth [OF pil] nk ic ipc A [OF i0 il nk] by auto
      qed
    qed
  next
    fix i assume i: "0 < i \<and> i < Heap_length ?h' \<and> (i - 1) div 2 = c \<and> 0 < c"
    then have il: "i < Heap_length h" and i0: "0 < i" and ipc: "(i - 1) div 2 = c" by simp_all
    have ci: "c < i" using ipc i0 by linarith
    have "(i - 1) div 2 \<noteq> k" using ipc kc by simp
    then have "?a ! c \<le> ?a ! i" using A [OF i0 il] ipc by simp
    then show "Heap_data ?h' ! ((c - 1) div 2) \<le> Heap_data ?h' ! i"
      using nth [OF il] nth [OF kl] c(2) ci kc by auto
  qed
qed

lemma children:
  "0 < (i::nat) \<Longrightarrow> (i - 1) div 2 = k \<longleftrightarrow> (i = k * 2 + 1 \<or> i = k * 2 + 1 + 1)"
  by arith

lemma down_inv_done:
  assumes inv: "down_inv k h"
    and ch: "\<And>i. 0 < i \<Longrightarrow> i < Heap_length h \<Longrightarrow> (i - 1) div 2 = k \<Longrightarrow> Heap_data h ! k \<le> Heap_data h ! i"
  shows "heap_ordered h"
  unfolding heap_ordered_iff
proof (intro allI impI)
  fix i assume "0 < i \<and> i < Heap_length h"
  then show "Heap_data h ! ((i - 1) div 2) \<le> Heap_data h ! i"
    using inv ch [of i] by (cases "(i - 1) div 2 = k") (auto simp: down_inv_def)
qed

lemma reheap_down_ordered:
  "down_inv k h \<Longrightarrow> k < Heap_length h \<Longrightarrow> Heap_length h \<le> length (Heap_data h) \<Longrightarrow>
   heap_ordered (reheap_down k h)"
proof (induction k h rule: reheap_down.induct)
  case (1 idx h)
  let ?l = "idx * 2 + 1"
  let ?r = "?l + 1"
  let ?a = "Heap_data h"
  note ih1 = 1(1) [OF refl refl refl _ refl refl]
  note ih2 = 1(2) [OF refl refl refl _ refl refl]
  have pl: "(?l - 1) div 2 = idx" by simp
  have pr: "(?r - 1) div 2 = idx" by simp
  show ?case
  proof (cases "?r < Heap_length h")
    case r: True
    then have l: "?l < Heap_length h" by simp
    show ?thesis
    proof (cases "?a ! ?l < ?a ! idx \<and> \<not> ?a ! ?r < ?a ! ?l")
      case True
      have "down_inv ?l (Heap_swap idx ?l h)"
      proof (rule down_inv_swap [OF 1(3) l pl _ 1(5)])
        show "0 < ?l" by simp
        show "?a ! ?l < ?a ! idx" using True by simp
        fix i assume "0 < i" "i < Heap_length h" "(i - 1) div 2 = idx"
        then show "?a ! ?l \<le> ?a ! i" using True children [of i idx] by auto
      qed
      then have "heap_ordered (reheap_down ?l (Heap_swap idx ?l h))"
        using ih1 r True l 1(5) by simp
      then show ?thesis by (simp only: reheap_down_left [OF r True])
    next
      case nl: False
      show ?thesis
      proof (cases "?a ! ?r < ?a ! idx \<and> \<not> ?a ! ?l < ?a ! ?r")
        case True
        have "down_inv ?r (Heap_swap idx ?r h)"
        proof (rule down_inv_swap [OF 1(3) r pr _ 1(5)])
          show "0 < ?r" by simp
          show "?a ! ?r < ?a ! idx" using True by simp
          fix i assume "0 < i" "i < Heap_length h" "(i - 1) div 2 = idx"
          then show "?a ! ?r \<le> ?a ! i" using True children [of i idx] by auto
        qed
        then have "heap_ordered (reheap_down ?r (Heap_swap idx ?r h))"
          using ih2 r nl True 1(5) by simp
        then show ?thesis by (simp only: reheap_down_right [OF r nl True])
      next
        case False
        have "heap_ordered h"
        proof (rule down_inv_done [OF 1(3)])
          fix i assume "0 < i" "i < Heap_length h" "(i - 1) div 2 = idx"
          then show "?a ! idx \<le> ?a ! i" using nl False children [of i idx] by auto
        qed
        then show ?thesis by (simp only: reheap_down_neither [OF r nl False])
      qed
    qed
  next
    case nr: False
    show ?thesis
    proof (cases "?l < Heap_length h")
      case l: True
      show ?thesis
      proof (cases "?a ! ?l < ?a ! idx")
        case True
        have "down_inv ?l (Heap_swap idx ?l h)"
        proof (rule down_inv_swap [OF 1(3) l pl _ 1(5)])
          show "0 < ?l" by simp
          show "?a ! ?l < ?a ! idx" using True by simp
          fix i assume "0 < i" "i < Heap_length h" "(i - 1) div 2 = idx"
          then show "?a ! ?l \<le> ?a ! i" using nr children [of i idx] by auto
        qed
        then have "heap_ordered (Heap_swap idx ?l h)"
        proof (rule down_inv_done)
          fix i assume "0 < i" "i < Heap_length (Heap_swap idx ?l h)" "(i - 1) div 2 = ?l"
          then show "Heap_data (Heap_swap idx ?l h) ! ?l \<le> Heap_data (Heap_swap idx ?l h) ! i"
            using nr by simp
        qed
        then show ?thesis using True by (simp add: reheap_down_only_left [OF nr l])
      next
        case False
        have "heap_ordered h"
        proof (rule down_inv_done [OF 1(3)])
          fix i assume "0 < i" "i < Heap_length h" "(i - 1) div 2 = idx"
          then show "?a ! idx \<le> ?a ! i" using nr False children [of i idx] by auto
        qed
        then show ?thesis using False by (simp add: reheap_down_only_left [OF nr l])
      qed
    next
      case False
      have "heap_ordered h"
      proof (rule down_inv_done [OF 1(3)])
        fix i assume "0 < i" "i < Heap_length h" "(i - 1) div 2 = idx"
        then show "?a ! idx \<le> ?a ! i" using nr False children [of i idx] by auto
      qed
      then show ?thesis by (simp only: reheap_down_leaf [OF nr False])
    qed
  qed
qed

lemma root_le:
  assumes "heap_ordered h"
  shows "i < Heap_length h \<Longrightarrow> Heap_data h ! 0 \<le> Heap_data h ! i"
proof (induction i rule: less_induct)
  case (less i)
  show ?case
  proof (cases "i = 0")
    case True
    then show ?thesis by simp
  next
    case False
    then have p: "(i - 1) div 2 < i" by linarith
    with less have "Heap_data h ! 0 \<le> Heap_data h ! ((i - 1) div 2)" by simp
    moreover have "Heap_data h ! ((i - 1) div 2) \<le> Heap_data h ! i"
      using assms False less.prems by (simp add: heap_ordered_iff)
    ultimately show ?thesis by simp
  qed
qed

lemma held_empty_iff: "Heap_wf h \<Longrightarrow> held h = {#} \<longleftrightarrow> Heap_length h = 0"
  by (auto simp: held_def Heap_wf_def)

lemma set_held:
  "Heap_length h \<le> length (Heap_data h) \<Longrightarrow>
   set_mset (held h) = (\<lambda>i. Heap_data h ! i) ` {0..<Heap_length h}"
  by (simp add: held_def nth_image)

lemma Heap_top_min:
  assumes "Heap_inv h" and "0 < Heap_length h"
  shows "Heap_top h = Min_mset (held h)"
proof -
  have len: "Heap_length h \<le> length (Heap_data h)"
    using assms(1) by (simp add: Heap_inv_def Heap_wf_def)
  have "Heap_data h ! 0 \<in> set_mset (held h)"
    using set_held [OF len] assms(2) by auto
  moreover have "\<forall>x \<in> set_mset (held h). Heap_data h ! 0 \<le> x"
    using set_held [OF len] root_le [of h] assms(1) by (auto simp: Heap_inv_def)
  ultimately show ?thesis
    unfolding Heap_top_def by (intro Min_eqI [symmetric]) auto
qed

lemma length_raw_buffer [simp]: "length (raw_buffer alloc n) = n"
  by (simp add: raw_buffer_def)

lemma Heap_reserve_props:
  assumes "Heap_inv h"
  shows "Heap_inv (Heap_reserve alloc n h) \<and> held (Heap_reserve alloc n h) = held h \<and>
         Heap_length (Heap_reserve alloc n h) = Heap_length h \<and>
         Heap_capacity (Heap_reserve alloc n h) = max n (Heap_capacity h)"
proof (cases "n \<le> Heap_capacity h")
  case True
  then show ?thesis using assms by (simp add: Heap_reserve_def max_def)
next
  case False
  let ?h' = "Heap_reserve alloc n h"
  have wf: "length (Heap_data h) = Heap_capacity h" "Heap_length h \<le> Heap_capacity h"
    using assms by (simp_all add: Heap_inv_def Heap_wf_def)
  have d: "Heap_data ?h' = take (Heap_length h) (Heap_data h) @ drop (Heap_length h) (raw_buffer alloc n)"
    and l: "Heap_length ?h' = Heap_length h" and c: "Heap_capacity ?h' = n"
    using False by (simp_all add: Heap_reserve_def Let_def)
  have nth: "\<And>i. i < Heap_length h \<Longrightarrow> Heap_data ?h' ! i = Heap_data h ! i"
    using wf by (simp add: d nth_append)
  have "heap_ordered ?h'"
    unfolding heap_ordered_iff
  proof (intro allI impI)
    fix i assume i: "0 < i \<and> i < Heap_length ?h'"
    then have "(i - 1) div 2 < Heap_length h" "i < Heap_length h" using l by auto
    then show "Heap_data ?h' ! ((i - 1) div 2) \<le> Heap_data ?h' ! i"
      using nth assms i by (simp add: Heap_inv_def heap_ordered_iff)
  qed
  moreover have "Heap_wf ?h'" using wf False by (simp add: Heap_wf_def d l c)
  moreover have "held ?h' = held h" using wf by (simp add: held_def d l)
  ultimately show ?thesis using False l c by (simp add: Heap_inv_def max_def)
qed

lemma Heap_grow_props:
  assumes "Heap_inv h"
  shows "Heap_inv (Heap_grow alloc h) \<and> held (Heap_grow alloc h) = held h \<and>
         Heap_length (Heap_grow alloc h) = Heap_length h \<and>
         Heap_capacity h < Heap_capacity (Heap_grow alloc h)"
  using Heap_reserve_props [OF assms, of alloc "if Heap_capacity h \<noteq> 0 then 2 * Heap_capacity h else 8"]
  by (auto simp: Heap_grow_def Let_def)

lemma Heap_push_props:
  assumes "Heap_inv h"
  shows "Heap_inv (Heap_push alloc v h) \<and> held (Heap_push alloc v h) = add_mset v (held h)"
proof -
  define h1 where "h1 = (if Heap_full h then Heap_grow alloc h else h)"
  define h2 where "h2 = h1\<lparr>Heap_data := (Heap_data h1)[Heap_length h1 := v],
                          Heap_length := Heap_length h1 + 1\<rparr>"
  have push: "Heap_push alloc v h = reheap_up (Heap_length h2 - 1) h2"
    by (simp add: Heap_push_def h1_def h2_def Let_def)
  have wf0: "Heap_length h \<le> Heap_capacity h"
    using assms by (simp add: Heap_inv_def Heap_wf_def)
  have h1: "Heap_inv h1" "held h1 = held h" "Heap_length h1 < Heap_capacity h1"
    using Heap_grow_props [OF assms, of alloc] assms wf0
    by (auto simp: h1_def Heap_full_def)
  have wf1: "length (Heap_data h1) = Heap_capacity h1"
    using h1(1) by (simp add: Heap_inv_def Heap_wf_def)
  let ?n = "Heap_length h1"
  have l2: "Heap_length h2 = ?n + 1" and c2: "Heap_capacity h2 = Heap_capacity h1"
    and len2: "length (Heap_data h2) = Heap_capacity h1"
    by (simp_all add: h2_def wf1)
  have nth2: "\<And>i. i < ?n \<Longrightarrow> Heap_data h2 ! i = Heap_data h1 ! i"
    by (simp add: h2_def)
  have held2: "held h2 = add_mset v (held h)"
  proof -
    have "take (?n + 1) ((Heap_data h1)[?n := v]) = take ?n (Heap_data h1) @ [v]"
      using h1(3) wf1 by (simp add: take_Suc_conv_app_nth)
    then show ?thesis using h1(2) by (simp add: held_def h2_def)
  qed
  have up: "up_inv ?n h2"
    unfolding up_inv_def
  proof (intro conjI allI impI)
    fix i assume i: "0 < i \<and> i < Heap_length h2 \<and> i \<noteq> ?n"
    then have "i < ?n" "(i - 1) div 2 < ?n" using l2 by auto
    then show "Heap_data h2 ! ((i - 1) div 2) \<le> Heap_data h2 ! i"
      using nth2 h1(1) i by (simp add: Heap_inv_def heap_ordered_iff)
  next
    fix i assume "0 < i \<and> i < Heap_length h2 \<and> (i - 1) div 2 = ?n \<and> 0 < ?n"
    then have False using l2 by auto
    then show "Heap_data h2 ! ((?n - 1) div 2) \<le> Heap_data h2 ! i" ..
  qed
  have k: "Heap_length h2 - 1 = ?n" "?n < Heap_length h2" "Heap_length h2 \<le> length (Heap_data h2)"
    using l2 len2 h1(3) by simp_all
  have "heap_ordered (reheap_up ?n h2)"
    using reheap_up_ordered [OF up k(2) k(3)] .
  moreover have "held (reheap_up ?n h2) = held h2"
    using reheap_up_held [OF k(2) k(3)] .
  moreover have "Heap_wf (reheap_up ?n h2)"
    using reheap_up_fields [of ?n h2] l2 c2 len2 h1(3) by (simp add: Heap_wf_def)
  ultimately show ?thesis unfolding push k(1) by (simp add: Heap_inv_def held2)
qed

lemma Heap_pop_props:
  assumes "Heap_inv h" and "0 < Heap_length h"
  shows "\<exists>h'. Heap_pop h = Inr h' \<and> Heap_inv h' \<and> held h' = held h - {#Min_mset (held h)#}"
proof -
  let ?n = "Heap_length h"
  let ?a = "Heap_data h"
  have wf: "length ?a = Heap_capacity h" "?n \<le> Heap_capacity h"
    using assms by (simp_all add: Heap_inv_def Heap_wf_def)
  have ord: "\<And>i. 0 < i \<Longrightarrow> i < ?n \<Longrightarrow> ?a ! ((i - 1) div 2) \<le> ?a ! i"
    using assms(1) by (simp add: Heap_inv_def heap_ordered_iff)
  have top: "?a ! 0 = Min_mset (held h)"
    using Heap_top_min [OF assms] by (simp add: Heap_top_def)
  define h1 where "h1 = h\<lparr>Heap_length := ?n - 1\<rparr>"
  have take_n: "take ?n ?a = take (?n - 1) ?a @ [?a ! (?n - 1)]"
    using assms(2) wf by (metis Suc_diff_1 diff_less less_le_trans take_Suc_conv_app_nth zero_less_one)
  show ?thesis
  proof (cases "0 < ?n - 1")
    case False
    then have n1: "?n = 1" using assms(2) by simp
    have "Heap_pop h = Inr h1" using assms(2) False by (simp add: Heap_pop_def h1_def Let_def)
    moreover have "Heap_inv h1" using wf n1 by (simp add: Heap_inv_def Heap_wf_def heap_ordered_def h1_def)
    moreover have "held h1 = held h - {#Min_mset (held h)#}"
      using n1 take_n top [symmetric] by (simp add: held_def h1_def)
    ultimately show ?thesis by blast
  next
    case True
    define h2 where "h2 = h1\<lparr>Heap_data := ?a[0 := ?a ! (?n - 1)]\<rparr>"
    have pop: "Heap_pop h = Inr (reheap_down 0 h2)"
      using assms(2) True by (simp add: Heap_pop_def h1_def h2_def Let_def)
    have l2: "Heap_length h2 = ?n - 1" and len2: "length (Heap_data h2) = Heap_capacity h"
      and c2: "Heap_capacity h2 = Heap_capacity h"
      by (simp_all add: h2_def h1_def wf)
    have nth2: "\<And>i. 0 < i \<Longrightarrow> Heap_data h2 ! i = ?a ! i"
      by (simp add: h2_def h1_def)
    have down: "down_inv 0 h2"
      unfolding down_inv_def
    proof (intro conjI allI impI)
      fix i assume i: "0 < i \<and> i < Heap_length h2 \<and> (i - 1) div 2 \<noteq> 0"
      then have "0 < (i - 1) div 2" "i < ?n" using l2 by auto
      then show "Heap_data h2 ! ((i - 1) div 2) \<le> Heap_data h2 ! i"
        using nth2 ord i by simp
    next
      fix i assume "0 < i \<and> i < Heap_length h2 \<and> (i - 1) div 2 = 0 \<and> (0::nat) < 0"
      then show "Heap_data h2 ! ((0 - 1) div 2) \<le> Heap_data h2 ! i" by simp
    qed
    have k: "0 < Heap_length h2" "Heap_length h2 \<le> length (Heap_data h2)"
      using True l2 len2 wf by simp_all
    have held2: "held h2 = held h - {#Min_mset (held h)#}"
    proof -
      let ?ys = "take (?n - 1) ?a"
      have ys: "?ys \<noteq> []" using True wf by auto
      have "take (?n - 1) (?a[0 := ?a ! (?n - 1)]) = ?ys[0 := ?a ! (?n - 1)]"
        by (simp add: take_update_swap)
      moreover have "mset (?ys[0 := ?a ! (?n - 1)]) = add_mset (?a ! (?n - 1)) (mset ?ys - {#?ys ! 0#})"
        using ys by (simp add: mset_update)
      moreover have "?ys ! 0 = ?a ! 0" using True by simp
      moreover have "mset (take ?n ?a) = add_mset (?a ! (?n - 1)) (mset ?ys)"
        using take_n by simp
      moreover have "?a ! 0 \<in># mset ?ys" using ys True
        by (metis \<open>?ys ! 0 = ?a ! 0\<close> length_greater_0_conv nth_mem set_mset_mset)
      ultimately show ?thesis using top
        by (simp add: held_def h2_def h1_def)
    qed
    have "heap_ordered (reheap_down 0 h2)" using reheap_down_ordered [OF down k] .
    moreover have "held (reheap_down 0 h2) = held h2" using reheap_down_held [OF k] .
    moreover have "Heap_wf (reheap_down 0 h2)"
      using reheap_down_fields [of 0 h2] l2 c2 len2 wf by (simp add: Heap_wf_def)
    ultimately show ?thesis using pop held2 by (simp add: Heap_inv_def)
  qed
qed

lemma Heap_clear_props:
  assumes "Heap_inv h"
  shows "Heap_inv (Heap_clear h) \<and> held (Heap_clear h) = {#}"
  using assms by (simp add: Heap_clear_def Heap_inv_def Heap_wf_def heap_ordered_def held_def)

lemma Heap_default_inv: "Heap_inv Heap_default \<and> held Heap_default = {#}"
  by (simp add: Heap_default_def Heap_inv_def Heap_wf_def heap_ordered_def held_def)

lemma Heap_construct_inv:
  "Heap_inv (Heap_construct alloc n) \<and> held (Heap_construct alloc n) = {#}"
  by (simp add: Heap_construct_def Heap_inv_def Heap_wf_def heap_ordered_def held_def)

subsection \<open>Runs of operations\<close>

text \<open>
  C6. From a heap that satisfies the invariant (the default heap and every freshly
  constructed heap do), a run of pushes and pops, with \<^verbatim>\<open>reserve\<close>, \<^verbatim>\<open>grow\<close> and
  \<^verbatim>\<open>clear\<close> in between, fails exactly when the reference multiset is popped while empty.
  Otherwise the heap it ends with satisfies the structural invariant, holds the elements of
  the reference multiset, and \<^verbatim>\<open>top()\<close> is their minimum when there is one. A run is
  any sequence, so this holds after every operation of it.
\<close>

theorem Heap_run_min:
  assumes "Heap_inv h0"
  shows "case Heap_run alloc ops h0 of
           Inl e \<Rightarrow> ref_run ops (held h0) = None
         | Inr h \<Rightarrow> Heap_inv h \<and> ref_run ops (held h0) = Some (held h) \<and>
                    (0 < Heap_length h \<longrightarrow> Heap_top h = Min_mset (held h))"
  using assms
proof (induction ops arbitrary: h0)
  case Nil
  then show ?case by (simp add: Heap_top_min)
next
  case (Cons op ops)
  show ?case
  proof (cases op)
    case (Push v)
    from Heap_push_props [OF Cons.prems, of alloc v] Cons.IH [of "Heap_push alloc v h0"]
    show ?thesis by (simp add: Push split: sum.splits)
  next
    case Pop
    show ?thesis
    proof (cases "0 < Heap_length h0")
      case True
      from Heap_pop_props [OF Cons.prems True] obtain h' where
        h': "Heap_pop h0 = Inr h'" "Heap_inv h'" "held h' = held h0 - {#Min_mset (held h0)#}"
        by blast
      have "held h0 \<noteq> {#}"
        using held_empty_iff [of h0] Cons.prems True by (simp add: Heap_inv_def)
      with Cons.IH [OF h'(2)] h' show ?thesis by (simp add: Pop split: sum.splits)
    next
      case False
      then have "held h0 = {#}"
        using held_empty_iff [of h0] Cons.prems by (simp add: Heap_inv_def)
      with False show ?thesis by (simp add: Pop Heap_pop_def)
    qed
  next
    case (Reserve n)
    from Heap_reserve_props [OF Cons.prems, of alloc n] Cons.IH [of "Heap_reserve alloc n h0"]
    show ?thesis by (simp add: Reserve split: sum.splits)
  next
    case Grow
    from Heap_grow_props [OF Cons.prems, of alloc] Cons.IH [of "Heap_grow alloc h0"]
    show ?thesis by (simp add: Grow split: sum.splits)
  next
    case Clear
    from Heap_clear_props [OF Cons.prems] Cons.IH [of "Heap_clear h0"]
    show ?thesis by (simp add: Clear split: sum.splits)
  qed
qed

text \<open>
  The theorem on the scenario of the spec, from the default heap: after the five pushes
  \<^verbatim>\<open>top()\<close> is 1, after a pop 3, after another pop 4, and the heap then holds 4, 5, 8.
\<close>

theorem Heap_run_min_witness:
  "Heap_inv (Heap_default :: nat heap_rec) \<and>
   (case Heap_run nat_alloc five_pushes Heap_default of
      Inl e \<Rightarrow> False | Inr h \<Rightarrow> Heap_top h = 1 \<and> Heap_top h = Min_mset (held h)) \<and>
   (case Heap_run nat_alloc (five_pushes @ [Pop]) Heap_default of
      Inl e \<Rightarrow> False | Inr h \<Rightarrow> Heap_top h = 3 \<and> Heap_top h = Min_mset (held h)) \<and>
   (case Heap_run nat_alloc (five_pushes @ [Pop, Pop]) Heap_default of
      Inl e \<Rightarrow> False
    | Inr h \<Rightarrow> Heap_top h = 4 \<and> Heap_top h = Min_mset (held h) \<and> Heap_inv h \<and>
               held h = {#4, 5, 8#})"
proof -
  have inv: "Heap_inv (Heap_default :: nat heap_rec)"
    by (simp add: Heap_default_inv)
  have r1: "Heap_run nat_alloc five_pushes Heap_default
            = Inr \<lparr>Heap_data = [1, 3, 8, 5, 4, 0, 0, 0], Heap_length = 5, Heap_capacity = 8\<rparr>"
    by code_simp
  have r2: "Heap_run nat_alloc (five_pushes @ [Pop]) Heap_default
            = Inr \<lparr>Heap_data = [3, 4, 8, 5, 4, 0, 0, 0], Heap_length = 4, Heap_capacity = 8\<rparr>"
    by code_simp
  have r3: "Heap_run nat_alloc (five_pushes @ [Pop, Pop]) Heap_default
            = Inr \<lparr>Heap_data = [4, 5, 8, 5, 4, 0, 0, 0], Heap_length = 3, Heap_capacity = 8\<rparr>"
    by code_simp
  have m: "held \<lparr>Heap_data = [4, 5, 8, 5, 4, 0, 0, 0 :: nat], Heap_length = 3, Heap_capacity = 8\<rparr>
           = {#4, 5, 8#}"
    by (simp add: held_def)
  from Heap_run_min [OF inv, where alloc = nat_alloc and ops = five_pushes]
       Heap_run_min [OF inv, where alloc = nat_alloc and ops = "five_pushes @ [Pop]"]
       Heap_run_min [OF inv, where alloc = nat_alloc and ops = "five_pushes @ [Pop, Pop]"]
  show ?thesis
    unfolding r1 r2 r3 using inv m by (simp add: Heap_top_def)
qed

section \<open>Moving a container\<close>

lemma Map_transfer_distinct:
  assumes "this \<noteq> src"
  shows "Map_transfer this src st this = st src \<and> Map_transfer this src st src = Map_default \<and>
         (\<forall>a. a \<noteq> this \<and> a \<noteq> src \<longrightarrow> Map_transfer this src st a = st a)"
  using assms by (simp add: Map_transfer_def Map_default_def Let_def)

lemma Heap_transfer_distinct:
  assumes "this \<noteq> src"
  shows "Heap_transfer this src st this = st src \<and> Heap_transfer this src st src = Heap_default \<and>
         (\<forall>a. a \<noteq> this \<and> a \<noteq> src \<longrightarrow> Heap_transfer this src st a = st a)"
  using assms by (simp add: Heap_transfer_def Heap_default_def Let_def)

text \<open>A destructor destroys and frees what belongs to the object it is called on.\<close>

lemma Slot_destructs_object:
  assumes "e \<in> set (Slot_destructs must_destruct a i s)"
  shows "\<exists>p. e = Destruct a i p"
proof (cases "must_destruct \<and> hash s \<noteq> EMPTY_SLOT")
  case False
  with assms show ?thesis by (simp add: Slot_destructs_def)
next
  case True
  with assms have "e \<in> set (case data s of Some p \<Rightarrow> [Destruct a i p] | None \<Rightarrow> [])"
    by (simp add: Slot_destructs_def)
  then show ?thesis by (cases "data s") simp_all
qed

lemma Map_destructs_object:
  assumes "e \<in> set (Map_destructs must_destruct this m)"
  shows "e = Free this \<or> (\<exists>i p. e = Destruct this i p)"
proof (cases "e = Free this")
  case True
  then show ?thesis by simp
next
  case False
  with assms obtain i s where "e \<in> set (Slot_destructs must_destruct this i s)"
    by (cases must_destruct) (auto simp: Map_destructs_def)
  from Slot_destructs_object [OF this] show ?thesis by blast
qed

lemma Heap_destructs_object:
  "e \<in> set (Heap_destructs must_destruct this h) \<Longrightarrow>
   e = Free this \<or> (\<exists>i p. e = Destruct this i p)"
  by (cases must_destruct) (auto simp: Heap_destructs_def)

lemma Map_destructs_default: "Map_destructs must_destruct a Map_default = [Free a]"
  by (simp add: Map_destructs_def Map_default_def)

lemma Heap_destructs_default: "Heap_destructs must_destruct a Heap_default = [Free a]"
  by (simp add: Heap_destructs_def Heap_default_def)

text \<open>
  C8. Moves between two objects. Move construction and move assignment of a map and of a
  heap leave in the destination exactly the object the source was: buffer, counters and
  all, with every slot and cell of the buffer as it stood. They leave the source with a
  null buffer and zero counters, and touch no other object. Move construction runs no
  destructor and frees nothing. Move assignment runs the destructor of the destination
  before the transfer, on the elements that the destination held: no destructor runs on an
  element of the buffer that the source hands over, and that buffer is not freed. The
  destructor of the source, when it runs later, finds no element.
\<close>

theorem move_transfers_fields:
  assumes "this \<noteq> src"
  shows "fst (Map_move_construct this src (ms, log)) this = ms src \<and>
         fst (Map_move_construct this src (ms, log)) src = Map_default \<and>
         snd (Map_move_construct this src (ms, log)) = log \<and>
         fst (Map_move_assign md this src (ms, log)) this = ms src \<and>
         fst (Map_move_assign md this src (ms, log)) src = Map_default \<and>
         snd (Map_move_assign md this src (ms, log)) = log @ Map_destructs md this (ms this) \<and>
         (\<forall>i p. Destruct src i p \<notin> set (Map_destructs md this (ms this))) \<and>
         Free src \<notin> set (Map_destructs md this (ms this)) \<and>
         Map_destructs md src (fst (Map_move_assign md this src (ms, log)) src) = [Free src] \<and>
         Map_destructs md src (fst (Map_move_construct this src (ms, log)) src) = [Free src] \<and>
         fst (Heap_move_construct this src (hs, hlog)) this = hs src \<and>
         fst (Heap_move_construct this src (hs, hlog)) src = Heap_default \<and>
         snd (Heap_move_construct this src (hs, hlog)) = hlog \<and>
         fst (Heap_move_assign md this src (hs, hlog)) this = hs src \<and>
         fst (Heap_move_assign md this src (hs, hlog)) src = Heap_default \<and>
         snd (Heap_move_assign md this src (hs, hlog)) = hlog @ Heap_destructs md this (hs this) \<and>
         (\<forall>i p. Destruct src i p \<notin> set (Heap_destructs md this (hs this))) \<and>
         Free src \<notin> set (Heap_destructs md this (hs this)) \<and>
         Heap_destructs md src (fst (Heap_move_assign md this src (hs, hlog)) src) = [Free src] \<and>
         Heap_destructs md src (fst (Heap_move_construct this src (hs, hlog)) src) = [Free src] \<and>
         (\<forall>a. a \<noteq> this \<and> a \<noteq> src \<longrightarrow>
            fst (Map_move_construct this src (ms, log)) a = ms a \<and>
            fst (Map_move_assign md this src (ms, log)) a = ms a \<and>
            fst (Heap_move_construct this src (hs, hlog)) a = hs a \<and>
            fst (Heap_move_assign md this src (hs, hlog)) a = hs a)"
proof -
  note mc = Map_transfer_distinct [OF assms, of ms]
  note ma = Map_transfer_distinct [OF assms, of "ms(this := Map_destroy (ms this))"]
  note hc = Heap_transfer_distinct [OF assms, of hs]
  note ha = Heap_transfer_distinct [OF assms, of "hs(this := Heap_destroy (hs this))"]
  have m1: "\<forall>i p. Destruct src i p \<notin> set (Map_destructs md this (ms this))"
    and m2: "Free src \<notin> set (Map_destructs md this (ms this))"
    using Map_destructs_object [of _ md this "ms this"] assms by auto
  have h1: "\<forall>i p. Destruct src i p \<notin> set (Heap_destructs md this (hs this))"
    and h2: "Free src \<notin> set (Heap_destructs md this (hs this))"
    using Heap_destructs_object [of _ md this "hs this"] assms by auto
  have a: "fst (Map_move_construct this src (ms, log)) = Map_transfer this src ms"
    "snd (Map_move_construct this src (ms, log)) = log"
    "fst (Map_move_assign md this src (ms, log))
       = Map_transfer this src (ms(this := Map_destroy (ms this)))"
    "snd (Map_move_assign md this src (ms, log)) = log @ Map_destructs md this (ms this)"
    by (simp_all add: Map_move_construct_def Map_move_assign_def Map_destructor_def Let_def)
  have b: "fst (Heap_move_construct this src (hs, hlog)) = Heap_transfer this src hs"
    "snd (Heap_move_construct this src (hs, hlog)) = hlog"
    "fst (Heap_move_assign md this src (hs, hlog))
       = Heap_transfer this src (hs(this := Heap_destroy (hs this)))"
    "snd (Heap_move_assign md this src (hs, hlog)) = hlog @ Heap_destructs md this (hs this)"
    by (simp_all add: Heap_move_construct_def Heap_move_assign_def Heap_destructor_def Let_def)
  show ?thesis
    unfolding a b
    using assms mc ma hc ha m1 m2 h1 h2
    by (simp add: Map_destructs_default Heap_destructs_default)
qed

text \<open>
  The theorem for a map and a heap at address 1 moved to address 0, where a map with the
  pair \<open>(5, 9)\<close> in slot 2 and a heap with the element 7 were, with element types that
  have destructors: the only destructors that run are those of that pair and that element.
\<close>

theorem move_transfers_fields_witness:
  "(0::nat) \<noteq> 1 \<and>
   Map_move_assign True 0 1 (two_maps, []) = (two_maps(0 := example_map, 1 := Map_default),
                                               [Destruct 0 2 (5, 9), Free 0]) \<and>
   Map_move_construct 0 1 (two_maps, []) = (two_maps(0 := example_map, 1 := Map_default), []) \<and>
   Heap_move_assign True 0 1 (two_heaps, []) = (two_heaps(0 := example_heap, 1 := Heap_default),
                                                 [Destruct 0 0 7, Free 0]) \<and>
   Heap_move_construct 0 1 (two_heaps, []) = (two_heaps(0 := example_heap, 1 := Heap_default), [])"
proof -
  have ne: "(0::nat) \<noteq> 1" by simp
  have e: "Map_destructs True 0 (two_maps 0) = [Destruct 0 2 (5, 9), Free 0]"
    "Heap_destructs True 0 (two_heaps 0) = [Destruct 0 0 7, Free 0]"
    by code_simp+
  have s: "two_maps 1 = example_map" "two_heaps 1 = example_heap"
    by (simp_all add: two_maps_def two_heaps_def)
  note t = move_transfers_fields [OF ne, of two_maps "[]" True two_heaps "[]"]
  have "fst (Map_move_assign True 0 1 (two_maps, [])) = two_maps(0 := example_map, 1 := Map_default)"
    "fst (Map_move_construct 0 1 (two_maps, [])) = two_maps(0 := example_map, 1 := Map_default)"
    "fst (Heap_move_assign True 0 1 (two_heaps, [])) = two_heaps(0 := example_heap, 1 := Heap_default)"
    "fst (Heap_move_construct 0 1 (two_heaps, [])) = two_heaps(0 := example_heap, 1 := Heap_default)"
    using t s by (auto simp: fun_eq_iff)
  moreover have "snd (Map_move_assign True 0 1 (two_maps, [])) = [Destruct 0 2 (5, 9), Free 0]"
    "snd (Map_move_construct 0 1 (two_maps, [])) = []"
    "snd (Heap_move_assign True 0 1 (two_heaps, [])) = [Destruct 0 0 7, Free 0]"
    "snd (Heap_move_construct 0 1 (two_heaps, [])) = []"
    using t e by simp_all
  ultimately show ?thesis using ne by (simp add: prod_eq_iff)
qed

text \<open>
  When destination and source are one object (\<^verbatim>\<open>m = std::move(m)\<close>) there is no second
  object to hand anything over: \<^verbatim>\<open>operator=\<close> runs the destructor of the object and leaves
  it empty.
\<close>

lemma self_move_assign_destroys:
  "Map_move_assign md a a (ms, log) = (ms(a := Map_default), log @ Map_destructs md a (ms a)) \<and>
   Heap_move_assign md a a (hs, hlog) = (hs(a := Heap_default), hlog @ Heap_destructs md a (hs a))"
  by (simp add: Map_move_assign_def Map_destructor_def Map_transfer_def Map_destroy_def
      Map_default_def Heap_move_assign_def Heap_destructor_def Heap_transfer_def Heap_destroy_def
      Heap_default_def Let_def fun_eq_iff)

end
